theory Spec2Isabelle
  imports Main "HOL-Library.AList"
begin

section \<open>CorpusOps: corpus statistics and their aggregation\<close>

text \<open>
  The statistics module keeps its counters in JavaScript numbers, its vocabulary in a
  \<^verbatim>\<open>Set<string>\<close> and its frequency tables in \<^verbatim>\<open>Map<string, number>\<close>. Both containers
  iterate in insertion order, so they are modelled as lists: a \<^verbatim>\<open>Set\<close> as a list in which
  an element is appended only when it is not yet there, a \<^verbatim>\<open>Map\<close> as an association list
  in which \<^verbatim>\<open>set\<close> overwrites the entry of an existing key in place and appends a new key
  at the end. A string is the list of its characters, and its length the length of that
  list.

  The counters and the per-term counts are JavaScript numbers, and \<^verbatim>\<open>+\<close> is the addition
  of numbers. The statistics record takes the type of its numbers as a parameter, so that
  \<^verbatim>\<open>combineStatistics\<close> is one definition: at the type \<open>number\<close> defined below
  its \<open>+\<close> is the rounding addition of doubles, at the type \<open>int\<close>
  it is the addition of integers. The two agree as long as no count exceeds \<open>2 ^ 53\<close>
  (\<open>combineStatistics_numbers\<close>). \<^verbatim>\<open>documentStatistics\<close> counts the elements of arrays and
  the characters of strings; the aggregation of documents is stated over these integer
  counts.
\<close>

type_synonym 'a js_set = "'a list"
type_synonym ('k, 'v) js_map = "('k \<times> 'v) list"

definition Set_add :: "'a \<Rightarrow> 'a js_set \<Rightarrow> 'a js_set" where
  "Set_add x s = (if x \<in> set s then s else s @ [x])"

definition new_Set :: "'a list \<Rightarrow> 'a js_set" where
  "new_Set xs = fold Set_add xs []"

definition Map_get :: "('k, 'v) js_map \<Rightarrow> 'k \<Rightarrow> 'v option" where
  "Map_get m k = map_of m k"

definition Map_set :: "'k \<Rightarrow> 'v \<Rightarrow> ('k, 'v) js_map \<Rightarrow> ('k, 'v) js_map" where
  "Map_set k v m = AList.update k v m"

record Document =
  doc_id :: string
  doc_text :: string

record 'n CorpusStatistics =
  documentCount :: 'n
  totalWords :: 'n
  totalSentences :: 'n
  totalChars :: 'n
  vocabulary :: "string js_set"
  termFrequency :: "(string, 'n) js_map"
  documentFrequency :: "(string, 'n) js_map"


definition emptyStatistics :: "'n::zero CorpusStatistics" where
  "emptyStatistics =
     \<lparr>documentCount = 0, totalWords = 0, totalSentences = 0, totalChars = 0,
      vocabulary = new_Set [], termFrequency = [], documentFrequency = []\<rparr>"

text \<open>
  \<^verbatim>\<open>mergeFrequencyMaps\<close> copies \<^verbatim>\<open>m1\<close> and walks \<^verbatim>\<open>m2\<close> in its order, storing
  \<^verbatim>\<open>(result.get(term) ?? 0) + count\<close> under each of its terms.
\<close>

definition mergeFrequencyMaps ::
  "(string, 'n::{zero,plus}) js_map \<Rightarrow> (string, 'n) js_map \<Rightarrow> (string, 'n) js_map" where
  "mergeFrequencyMaps m1 m2 =
     fold (\<lambda>(term, count) result.
             Map_set term ((case Map_get result term of None \<Rightarrow> 0 | Some c \<Rightarrow> c) + count) result)
          m2 m1"


definition documentStatistics ::
  "Document \<Rightarrow> string list \<Rightarrow> string list \<Rightarrow> int CorpusStatistics" where
  "documentStatistics doc tokens sentences =
     (let vocab = new_Set tokens;
          tf = fold (\<lambda>token m.
                  Map_set token ((case Map_get m token of None \<Rightarrow> 0 | Some c \<Rightarrow> c) + 1) m)
                tokens [];
          df = fold (\<lambda>term m. Map_set term 1 m) vocab []
      in \<lparr>documentCount = 1,
          totalWords = int (length tokens),
          totalSentences = int (length sentences),
          totalChars = int (length (doc_text doc)),
          vocabulary = vocab,
          termFrequency = tf,
          documentFrequency = df\<rparr>)"

text \<open>
  The NLP service is a collaborator of the module: four operations that the aggregation
  calls on every document. A pure extractor is a record of four functions.
\<close>

record NLPService =
  sentencize :: "string \<Rightarrow> string list"
  tokenize :: "string \<Rightarrow> string list"
  removeStopWords :: "string list \<Rightarrow> string list"
  stem :: "string list \<Rightarrow> string list"

text \<open>The body that both aggregations run on one document.\<close>

definition extractStatistics :: "NLPService \<Rightarrow> Document \<Rightarrow> int CorpusStatistics" where
  "extractStatistics nlp doc =
     (let sentences = sentencize nlp (doc_text doc);
          tokens = tokenize nlp (doc_text doc);
          filtered = removeStopWords nlp tokens;
          stemmed = stem nlp filtered
      in documentStatistics doc stemmed sentences)"






subsection \<open>The statistics as the specification reads them\<close>

text \<open>
  Two statistics are the same when their four counters are equal, their vocabularies are
  equal as sets and their two frequency tables are equal as maps from term to count.
  \<open>view\<close> takes a statistics value to exactly these seven components.
\<close>

type_synonym 'n stats_view =
  "'n \<times> 'n \<times> 'n \<times> 'n \<times> string set \<times> (string \<rightharpoonup> 'n) \<times> (string \<rightharpoonup> 'n)"

definition view :: "'n CorpusStatistics \<Rightarrow> 'n stats_view" where
  "view s = (documentCount s, totalWords s, totalSentences s, totalChars s,
             set (vocabulary s), map_of (termFrequency s), map_of (documentFrequency s))"

text \<open>A \<^verbatim>\<open>Map\<close> holds each key once; the association lists that stand for one do too.\<close>

definition map_keys_ok :: "'n CorpusStatistics \<Rightarrow> bool" where
  "map_keys_ok s \<longleftrightarrow>
     distinct (map fst (termFrequency s)) \<and> distinct (map fst (documentFrequency s))"

text \<open>What merging does to the tables, read as maps.\<close>

definition merge_map ::
  "(string \<rightharpoonup> 'n::{zero,plus}) \<Rightarrow> (string \<rightharpoonup> 'n) \<Rightarrow> (string \<rightharpoonup> 'n)" where
  "merge_map f g = (\<lambda>k. case g k of None \<Rightarrow> f k
                        | Some c \<Rightarrow> Some ((case f k of None \<Rightarrow> 0 | Some x \<Rightarrow> x) + c))"

definition combine_view :: "'n::{zero,plus} stats_view \<Rightarrow> 'n stats_view \<Rightarrow> 'n stats_view" where
  "combine_view = (\<lambda>(d1, w1, s1, c1, v1, t1, f1) (d2, w2, s2, c2, v2, t2, f2).
      (d1 + d2, w1 + w2, s1 + s2, c1 + c2, v1 \<union> v2, merge_map t1 t2, merge_map f1 f2))"






subsection \<open>JavaScript numbers\<close>

text \<open>
  A JavaScript number is an IEEE 754 double: a sign, a significand of 53 bits and an
  exponent. Every integer of magnitude at most \<open>2 ^ 53\<close> is a double; above, only the
  multiples of a power of two are. The sum of two doubles is the exact sum rounded to the
  nearest double, a tie going to the double whose significand is even. The counts of this
  module are integers, so a number is modelled by its integer value and \<open>round_double\<close>
  rounds an integer to the nearest double: it keeps the 53 leading bits of the magnitude.
  Fractions, infinities and \<^verbatim>\<open>NaN\<close> are not values of this type, and the overflow of a sum
  beyond the largest double (about \<open>2 ^ 1024\<close>) is not modelled.
\<close>

fun bit_length :: "nat \<Rightarrow> nat" where
  "bit_length n = (if n = 0 then 0 else Suc (bit_length (n div 2)))"

declare bit_length.simps [simp del]

definition round_double :: "int \<Rightarrow> int" where
  "round_double x =
     (if \<bar>x\<bar> \<le> 2 ^ 53 then x
      else (let u = 2 ^ (bit_length (nat \<bar>x\<bar>) - 53); q = x div u; r = x mod u
            in if 2 * r < u then q * u
               else if u < 2 * r then (q + 1) * u
               else if even q then q * u else (q + 1) * u))"

text \<open>A number with an integer value, its zero and its addition.\<close>

datatype number = Number int

instantiation number :: "{zero, plus}"
begin

definition zero_number :: number where
  "zero_number = Number 0"

fun plus_number :: "number \<Rightarrow> number \<Rightarrow> number" where
  "plus_number (Number x) (Number y) = Number (round_double (x + y))"

instance ..

end







section \<open>Properties of the statistics\<close>

lemma set_fold_Set_add: "set (fold Set_add xs s) = set xs \<union> set s"
  by (induction xs arbitrary: s) (auto simp: Set_add_def)

lemma set_new_Set [simp]: "set (new_Set xs) = set xs"
  by (simp add: new_Set_def set_fold_Set_add)

lemma distinct_fold_Set_add: "distinct s \<Longrightarrow> distinct (fold Set_add xs s)"
  by (induction xs arbitrary: s) (auto simp: Set_add_def)

lemma distinct_new_Set [simp]: "distinct (new_Set xs)"
  by (simp add: new_Set_def distinct_fold_Set_add)

lemma map_of_Map_set [simp]: "map_of (Map_set k v m) = (map_of m)(k \<mapsto> v)"
  by (simp add: Map_set_def update_conv')

lemma distinct_Map_set [simp]: "distinct (map fst m) \<Longrightarrow> distinct (map fst (Map_set k v m))"
  by (simp add: Map_set_def distinct_update)





lemma merge_map_empty [simp]:
  "merge_map Map.empty f = (f :: string \<rightharpoonup> int)" "merge_map f Map.empty = f"
  by (auto simp: merge_map_def fun_eq_iff split: option.splits)




lemma view_emptyStatistics:
  "view emptyStatistics = (0, 0, 0, 0, {}, Map.empty, Map.empty)"
  by (simp add: view_def emptyStatistics_def)



lemma combine_view_empty [simp]:
  "combine_view (view emptyStatistics) x = (x :: int stats_view)"
  "combine_view x (view emptyStatistics) = x"
  by (auto simp: combine_view_def view_emptyStatistics split: prod.splits)










lemma list_all_Map_set:
  "list_all P m \<Longrightarrow> P (k, x) \<Longrightarrow> list_all P (Map_set k x m)"
  by (induction m) (auto simp: Map_set_def)

lemma mergeFrequencyMaps_Cons:
  "mergeFrequencyMaps m1 ((k, c) # m2)
     = mergeFrequencyMaps (Map_set k ((case Map_get m1 k of None \<Rightarrow> 0 | Some x \<Rightarrow> x) + c) m1) m2"
  by (simp add: mergeFrequencyMaps_def)

lemma mergeFrequencyMaps_Nil [simp]: "mergeFrequencyMaps m1 [] = m1"
  by (simp add: mergeFrequencyMaps_def)

lemma list_all_from_mergeFrequencyMaps:
  "list_all (\<lambda>(k, v). (0::int) \<le> v) m1 \<Longrightarrow> list_all (\<lambda>(k, v). 0 \<le> v) m2
   \<Longrightarrow> list_all (\<lambda>(k, v). 0 \<le> v) (mergeFrequencyMaps m1 m2)"
proof (induction m2 arbitrary: m1)
  case Nil
  then show ?case by simp
next
  case (Cons p m2)
  obtain k c where p: "p = (k, c)" by (cases p)
  from Cons.prems have c: "0 \<le> c" and m2: "list_all (\<lambda>(k, v). 0 \<le> v) m2"
    by (simp_all add: p)
  have v: "0 \<le> (case Map_get m1 k of None \<Rightarrow> 0 | Some x \<Rightarrow> x)"
  proof (cases "map_of m1 k")
    case None
    then show ?thesis by (simp add: Map_get_def)
  next
    case (Some x)
    then have "(k, x) \<in> set m1" by (rule map_of_SomeD)
    with Cons.prems(1) have "0 \<le> x" by (auto simp: list_all_iff)
    with Some show ?thesis by (simp add: Map_get_def)
  qed
  have "list_all (\<lambda>(k, v). 0 \<le> v)
          (Map_set k ((case Map_get m1 k of None \<Rightarrow> 0 | Some x \<Rightarrow> x) + c) m1)"
    using Cons.prems(1) v c by (intro list_all_Map_set) simp_all
  from Cons.IH [OF this m2] show ?case
    by (simp add: p mergeFrequencyMaps_Cons)
qed







definition view_from :: "int \<Rightarrow> int stats_view \<Rightarrow> bool" where
  "view_from l = (\<lambda>(d, w, s, c, v, t, f). l \<le> d \<and> l \<le> w \<and> l \<le> s \<and> l \<le> c
      \<and> (\<forall>k x. t k = Some x \<longrightarrow> l \<le> x) \<and> (\<forall>k x. f k = Some x \<longrightarrow> l \<le> x))"












lemma view_from_emptyStatistics: "view_from 0 (view emptyStatistics)"
  by (simp add: view_from_def view_emptyStatistics)



lemma distinct_fold_Map_set:
  "distinct (map fst m) \<Longrightarrow> distinct (map fst (fold (\<lambda>x m. Map_set x (h m x) m) xs m))"
  by (induction xs arbitrary: m) auto

lemma map_keys_ok_documentStatistics [simp]: "map_keys_ok (documentStatistics doc tokens sentences)"
  unfolding map_keys_ok_def documentStatistics_def Let_def
  using distinct_fold_Map_set [of "[]" "\<lambda>m token. (case Map_get m token of None \<Rightarrow> 0 | Some c \<Rightarrow> c) + 1" tokens]
    distinct_fold_Map_set [of "[]" "\<lambda>m term. 1" "new_Set tokens"]
  by simp

lemma map_keys_ok_extractStatistics [simp]: "map_keys_ok (extractStatistics nlp doc)"
  by (simp add: extractStatistics_def Let_def)









section \<open>The graph library underneath EffectGraph\<close>

text \<open>
  EffectGraph stores its nodes in a directed graph of the effect library and addresses
  them by the library's node indices. The library is a dependency of the repository; the
  operations EffectGraph calls are modelled by what they do to the graph's tables: the
  node table and the edge table are \<^verbatim>\<open>Map\<close>s from index to entry (association lists in
  insertion order), with the next free node index and edge index beside them. The
  adjacency lists of the library are determined by the edge table (an edge is appended to
  its source's list when it is created), so the neighbours of a node are read off the
  edge table in creation order. The edge payload is the constant \<^verbatim>\<open>{ relation: "child" }\<close>
  and is left out.
\<close>

type_synonym NodeIndex = nat
type_synonym EdgeIndex = nat
type_synonym Edge = "NodeIndex \<times> NodeIndex"

record 'n DirectedGraph =
  nodes :: "(NodeIndex, 'n) js_map"
  edges :: "(EdgeIndex, Edge) js_map"
  nextNodeIndex :: NodeIndex
  nextEdgeIndex :: EdgeIndex

type_synonym NodeId = string

text \<open>
  The two ways a call can throw: \<^verbatim>\<open>Graph.addEdge\<close> rejects an endpoint that is not a
  node of the graph (an index, or \<^verbatim>\<open>undefined\<close>), and \<^verbatim>\<open>cata\<close> throws
  \<^verbatim>\<open>Error(`Node not found: ${nodeId}`)\<close>.
\<close>

datatype error = MissingNode "NodeIndex option" | NodeNotFound NodeId

definition Graph_directed :: "'n DirectedGraph" where
  "Graph_directed = \<lparr>nodes = [], edges = [], nextNodeIndex = 0, nextEdgeIndex = 0\<rparr>"

definition Graph_addNode :: "'n DirectedGraph \<Rightarrow> 'n \<Rightarrow> NodeIndex \<times> 'n DirectedGraph" where
  "Graph_addNode G n =
     (nextNodeIndex G,
      G\<lparr>nodes := Map_set (nextNodeIndex G) n (nodes G), nextNodeIndex := nextNodeIndex G + 1\<rparr>)"

definition Graph_hasNode :: "'n DirectedGraph \<Rightarrow> NodeIndex \<Rightarrow> bool" where
  "Graph_hasNode G i \<longleftrightarrow> i \<in> set (map fst (nodes G))"

definition Graph_addEdge ::
  "'n DirectedGraph \<Rightarrow> NodeIndex \<Rightarrow> NodeIndex \<Rightarrow> error + EdgeIndex \<times> 'n DirectedGraph" where
  "Graph_addEdge G s t =
     (if \<not> Graph_hasNode G s then Inl (MissingNode (Some s))
      else if \<not> Graph_hasNode G t then Inl (MissingNode (Some t))
      else Inr (nextEdgeIndex G,
                G\<lparr>edges := Map_set (nextEdgeIndex G) (s, t) (edges G),
                  nextEdgeIndex := nextEdgeIndex G + 1\<rparr>))"

definition Graph_getNode :: "'n DirectedGraph \<Rightarrow> NodeIndex \<Rightarrow> 'n option" where
  "Graph_getNode G i = Map_get (nodes G) i"

definition Graph_getEdge :: "'n DirectedGraph \<Rightarrow> EdgeIndex \<Rightarrow> Edge option" where
  "Graph_getEdge G e = Map_get (edges G) e"

definition Graph_neighbors :: "'n DirectedGraph \<Rightarrow> NodeIndex \<Rightarrow> NodeIndex list" where
  "Graph_neighbors G i = map (\<lambda>(e, s, t). t) (filter (\<lambda>(e, s, t). s = i) (edges G))"

text \<open>\<^verbatim>\<open>Graph.externals(g, { direction: "incoming" })\<close>: the nodes that no edge enters.\<close>

definition Graph_externals_incoming :: "'n DirectedGraph \<Rightarrow> (NodeIndex \<times> 'n) list" where
  "Graph_externals_incoming G =
     filter (\<lambda>(i, n). i \<notin> set (map (\<lambda>(e, s, t). t) (edges G))) (nodes G)"

definition Graph_findNodes :: "'n DirectedGraph \<Rightarrow> ('n \<Rightarrow> bool) \<Rightarrow> NodeIndex list" where
  "Graph_findNodes G P = map fst (filter (\<lambda>(i, n). P n) (nodes G))"

definition Graph_nodeCount :: "'n DirectedGraph \<Rightarrow> nat" where
  "Graph_nodeCount G = length (nodes G)"

text \<open>\<^verbatim>\<open>Graph.isAcyclic\<close>: no path of edges leads from a node back to itself.\<close>

definition Graph_isAcyclic :: "'n DirectedGraph \<Rightarrow> bool" where
  "Graph_isAcyclic G \<longleftrightarrow> acyclic (set (map snd (edges G)))"

section \<open>EffectGraph\<close>

record NodeMetadata =
  operation :: "string option"
  timestamp :: int
  depth :: int

record 'a GraphNode =
  nodeId :: NodeId
  data :: 'a
  parentId :: "NodeId option"
  metadata :: NodeMetadata

text \<open>
  The two \<^verbatim>\<open>HashMap\<close>s of an EffectGraph are only read with \<^verbatim>\<open>get\<close> and written with
  \<^verbatim>\<open>set\<close>; they are maps.
\<close>

record 'a EffectGraph =
  graph :: "'a GraphNode DirectedGraph"
  nodeIdToIndex :: "NodeId \<rightharpoonup> NodeIndex"
  indexToNodeId :: "NodeIndex \<rightharpoonup> NodeId"

text \<open>
  \<^verbatim>\<open>makeNode\<close> draws a fresh identifier (\<^verbatim>\<open>NodeId.generate()\<close>) and reads the clock
  (\<^verbatim>\<open>Date.now()\<close>); both are arguments here.
\<close>

definition makeNode ::
  "'a \<Rightarrow> NodeId option \<Rightarrow> string option \<Rightarrow> NodeId \<Rightarrow> int \<Rightarrow> 'a GraphNode" where
  "makeNode d parent opn newId now =
     \<lparr>nodeId = newId, data = d, parentId = parent,
      metadata = \<lparr>operation = opn, timestamp = now,
                  depth = (case parent of None \<Rightarrow> 0 | Some _ \<Rightarrow> 1)\<rparr>\<rparr>"

definition empty :: "'a EffectGraph" where
  "empty = \<lparr>graph = Graph_directed, nodeIdToIndex = Map.empty, indexToNodeId = Map.empty\<rparr>"

definition singleton :: "'a \<Rightarrow> NodeId \<Rightarrow> int \<Rightarrow> 'a EffectGraph" where
  "singleton d newId now =
     (let node = makeNode d None None newId now;
          (nodeIndex, G) = Graph_addNode Graph_directed node
      in \<lparr>graph = G,
          nodeIdToIndex = [nodeId node \<mapsto> nodeIndex],
          indexToNodeId = [nodeIndex \<mapsto> nodeId node]\<rparr>)"

text \<open>
  \<^verbatim>\<open>addNode\<close>: the depth is recomputed from the parent found through \<^verbatim>\<open>nodeIdToIndex\<close>
  (0 when there is none to be found), the node is added to a copy of the graph, an edge
  from the parent's index is added when \<^verbatim>\<open>nodeIdToIndex\<close> knows the parent, and the id
  is bound to the first index whose node carries it. \<^verbatim>\<open>findNodes(...)[0]!\<close> reads the
  head of an array that holds the new node's index at least; the empty case is kept as a
  branch and reported as a missing node.
\<close>

definition updateDepth :: "'a EffectGraph \<Rightarrow> 'a GraphNode \<Rightarrow> 'a GraphNode" where
  "updateDepth effectGraph node =
     (case parentId node of
        None \<Rightarrow> node
      | Some p \<Rightarrow>
          let parentIndex = nodeIdToIndex effectGraph p;
              parentNode = Option.bind parentIndex (Graph_getNode (graph effectGraph));
              parentDepth = (case parentNode of None \<Rightarrow> 0 | Some pn \<Rightarrow> depth (metadata pn))
          in node\<lparr>metadata := (metadata node)\<lparr>depth := parentDepth + 1\<rparr>\<rparr>)"

definition addNode :: "'a EffectGraph \<Rightarrow> 'a GraphNode \<Rightarrow> error + 'a EffectGraph" where
  "addNode effectGraph node =
     (let updatedNode = updateDepth effectGraph node;
          (nodeIndex, G1) = Graph_addNode (graph effectGraph) updatedNode;
          mutated =
            (case parentId node of
               None \<Rightarrow> Inr G1
             | Some p \<Rightarrow>
                 (case nodeIdToIndex effectGraph p of
                    None \<Rightarrow> Inr G1
                  | Some pIdx \<Rightarrow> map_sum (\<lambda>e. e) snd (Graph_addEdge G1 pIdx nodeIndex)))
      in case mutated of
           Inl e \<Rightarrow> Inl e
         | Inr newGraph \<Rightarrow>
             (case Graph_findNodes newGraph (\<lambda>n. nodeId n = nodeId updatedNode) of
                [] \<Rightarrow> Inl (MissingNode None)
              | newNodeIndex # _ \<Rightarrow>
                  Inr \<lparr>graph = newGraph,
                       nodeIdToIndex = (nodeIdToIndex effectGraph)(nodeId updatedNode \<mapsto> newNodeIndex),
                       indexToNodeId = (indexToNodeId effectGraph)(newNodeIndex \<mapsto> nodeId updatedNode)\<rparr>))"

definition getNode :: "'a EffectGraph \<Rightarrow> NodeId \<Rightarrow> 'a GraphNode option" where
  "getNode g nid = Option.bind (nodeIdToIndex g nid) (Graph_getNode (graph g))"

definition getChildren :: "'a EffectGraph \<Rightarrow> NodeId \<Rightarrow> 'a GraphNode list" where
  "getChildren g nid =
     (case nodeIdToIndex g nid of
        None \<Rightarrow> []
      | Some idx \<Rightarrow> List.map_filter (Graph_getNode (graph g)) (Graph_neighbors (graph g) idx))"

definition getRoots :: "'a EffectGraph \<Rightarrow> 'a GraphNode list" where
  "getRoots g =
     List.map_filter (Graph_getNode (graph g)) (map fst (Graph_externals_incoming (graph g)))"

definition size_graph :: "'a EffectGraph \<Rightarrow> nat" where
  "size_graph g = Graph_nodeCount (graph g)"

definition isAcyclic :: "'n DirectedGraph \<Rightarrow> bool" where
  "isAcyclic G = Graph_isAcyclic G"


section \<open>The fold\<close>

text \<open>
  \<^verbatim>\<open>cata\<close> keeps a memo table keyed by node id and calls the local function \<^verbatim>\<open>go\<close> on
  the id of every root, in order. \<^verbatim>\<open>go\<close> returns the memoised result if there is one,
  throws when \<^verbatim>\<open>getNode\<close> finds nothing, and otherwise runs itself on the ids of the
  children that \<^verbatim>\<open>getChildren\<close> reports, applies the algebra and stores the result.
  \<^verbatim>\<open>Effect.all\<close> without options runs its effects one after the other and stops at the
  first failure.

  The recursion of \<^verbatim>\<open>go\<close> follows the edges and need not end; it is given fuel, and
  \<open>None\<close> is the run that has not returned within the fuel. The state carries, next to
  the memo table, the list of node ids the algebra has been applied to, in call order.
\<close>

record 'b cata_state =
  memo :: "NodeId \<rightharpoonup> 'b"
  calls :: "NodeId list"

type_synonym ('a, 'b) GraphAlgebra = "'a GraphNode \<Rightarrow> 'b list \<Rightarrow> 'b"

fun Effect_all ::
  "('s \<Rightarrow> 'x \<Rightarrow> (error + 'r \<times> 's) option) \<Rightarrow> 's \<Rightarrow> 'x list \<Rightarrow> (error + 'r list \<times> 's) option" where
  "Effect_all f st [] = Some (Inr ([], st))"
| "Effect_all f st (x # xs) =
     (case f st x of
        None \<Rightarrow> None
      | Some (Inl e) \<Rightarrow> Some (Inl e)
      | Some (Inr (r, st1)) \<Rightarrow>
          (case Effect_all f st1 xs of
             None \<Rightarrow> None
           | Some (Inl e) \<Rightarrow> Some (Inl e)
           | Some (Inr (rs, st2)) \<Rightarrow> Some (Inr (r # rs, st2))))"

primrec go ::
  "nat \<Rightarrow> 'a EffectGraph \<Rightarrow> ('a, 'b) GraphAlgebra \<Rightarrow> 'b cata_state \<Rightarrow> NodeId
     \<Rightarrow> (error + 'b \<times> 'b cata_state) option" where
  "go 0 g algebra st nid = None"
| "go (Suc fuel) g algebra st nid =
     (case memo st nid of
        Some r \<Rightarrow> Some (Inr (r, st))
      | None \<Rightarrow>
          (case getNode g nid of
             None \<Rightarrow> Some (Inl (NodeNotFound nid))
           | Some node \<Rightarrow>
               (case Effect_all (go fuel g algebra) st (map nodeId (getChildren g nid)) of
                  None \<Rightarrow> None
                | Some (Inl e) \<Rightarrow> Some (Inl e)
                | Some (Inr (processedChildren, st1)) \<Rightarrow>
                    (let result = algebra node processedChildren
                     in Some (Inr (result,
                          st1\<lparr>memo := (memo st1)(nid \<mapsto> result), calls := calls st1 @ [nid]\<rparr>))))))"

definition cata_run ::
  "nat \<Rightarrow> 'a EffectGraph \<Rightarrow> ('a, 'b) GraphAlgebra \<Rightarrow> (error + 'b list \<times> 'b cata_state) option" where
  "cata_run fuel g algebra =
     Effect_all (go fuel g algebra) \<lparr>memo = Map.empty, calls = []\<rparr> (map nodeId (getRoots g))"

definition cata ::
  "nat \<Rightarrow> 'a EffectGraph \<Rightarrow> ('a, 'b) GraphAlgebra \<Rightarrow> (error + 'b list) option" where
  "cata fuel g algebra = map_option (map_sum (\<lambda>e. e) fst) (cata_run fuel g algebra)"

section \<open>The functor\<close>

text \<open>
  \<^verbatim>\<open>map\<close> builds a new library graph: it adds every node of the old one, in the order of
  the node table, with \<^verbatim>\<open>f\<close> applied to its data, remembering the new index of every
  node id (\<^verbatim>\<open>nodeMap\<close>) and of every old index (\<^verbatim>\<open>indexMap\<close>); then it adds every edge
  of the old graph between the new indices of its endpoints. An endpoint that
  \<^verbatim>\<open>indexMap\<close> does not know reaches \<^verbatim>\<open>Graph.addEdge\<close> as \<^verbatim>\<open>undefined\<close>.
\<close>

definition mapNode :: "('a \<Rightarrow> 'b) \<Rightarrow> 'a GraphNode \<Rightarrow> 'b GraphNode" where
  "mapNode f node =
     \<lparr>nodeId = nodeId node, data = f (data node), parentId = parentId node,
      metadata = metadata node\<rparr>"


definition map_edge ::
  "'a GraphNode DirectedGraph \<Rightarrow> (NodeIndex, NodeIndex) js_map \<Rightarrow> EdgeIndex
     \<Rightarrow> 'b GraphNode DirectedGraph \<Rightarrow> error + 'b GraphNode DirectedGraph" where
  "map_edge old indexMap edgeIdx G =
     (case Graph_getEdge old edgeIdx of
        None \<Rightarrow> Inr G
      | Some (s, t) \<Rightarrow>
          (case Map_get indexMap s of
             None \<Rightarrow> Inl (MissingNode None)
           | Some newFromIdx \<Rightarrow>
               (case Map_get indexMap t of
                  None \<Rightarrow> (if Graph_hasNode G newFromIdx then Inl (MissingNode None)
                            else Inl (MissingNode (Some newFromIdx)))
                | Some newToIdx \<Rightarrow> map_sum (\<lambda>e. e) snd (Graph_addEdge G newFromIdx newToIdx))))"

definition map_edges ::
  "'a GraphNode DirectedGraph \<Rightarrow> (NodeIndex, NodeIndex) js_map \<Rightarrow> EdgeIndex list
     \<Rightarrow> 'b GraphNode DirectedGraph \<Rightarrow> error + 'b GraphNode DirectedGraph" where
  "map_edges old indexMap es G =
     fold (\<lambda>edgeIdx acc. case acc of Inl e \<Rightarrow> Inl e | Inr G' \<Rightarrow> map_edge old indexMap edgeIdx G')
          es (Inr G)"






section \<open>Growing a graph with addNode\<close>

text \<open>
  A graph of the library holds every index once in each table, hands out indices below
  its counters only, and has edges between its own nodes only: \<^verbatim>\<open>addEdge\<close> checks both
  endpoints, and the counters only grow. \<open>graph_ok\<close> is this invariant of the library,
  \<open>idmap_ok\<close> says that \<^verbatim>\<open>nodeIdToIndex\<close> points at nodes of the graph.
\<close>

definition graph_ok :: "'n DirectedGraph \<Rightarrow> bool" where
  "graph_ok G \<longleftrightarrow>
     distinct (map fst (nodes G)) \<and> distinct (map fst (edges G))
     \<and> (\<forall>i \<in> set (map fst (nodes G)). i < nextNodeIndex G)
     \<and> (\<forall>e \<in> set (map fst (edges G)). e < nextEdgeIndex G)
     \<and> (\<forall>(e, s, t) \<in> set (edges G). Graph_hasNode G s \<and> Graph_hasNode G t)"

definition idmap_ok :: "'a EffectGraph \<Rightarrow> bool" where
  "idmap_ok g \<longleftrightarrow> (\<forall>i k. nodeIdToIndex g i = Some k \<longrightarrow> Graph_hasNode (graph g) k)"

definition parentIndex :: "'a EffectGraph \<Rightarrow> 'a GraphNode \<Rightarrow> NodeIndex option" where
  "parentIndex g n = Option.bind (parentId n) (nodeIdToIndex g)"

lemma Map_set_fresh: "k \<notin> set (map fst m) \<Longrightarrow> Map_set k v m = m @ [(k, v)]"
  unfolding Map_set_def by (induction m) auto

lemma Graph_addNode_ok:
  assumes "graph_ok G"
  shows "Graph_addNode G n =
           (nextNodeIndex G, G\<lparr>nodes := nodes G @ [(nextNodeIndex G, n)],
                               nextNodeIndex := Suc (nextNodeIndex G)\<rparr>)"
proof -
  have "nextNodeIndex G \<notin> set (map fst (nodes G))"
    using assms unfolding graph_ok_def by blast
  then show ?thesis by (simp add: Graph_addNode_def Map_set_fresh)
qed

lemma Graph_addEdge_ok:
  assumes "graph_ok G" and "Graph_hasNode G s" and "Graph_hasNode G t"
  shows "Graph_addEdge G s t =
           Inr (nextEdgeIndex G, G\<lparr>edges := edges G @ [(nextEdgeIndex G, s, t)],
                                    nextEdgeIndex := Suc (nextEdgeIndex G)\<rparr>)"
proof -
  have "nextEdgeIndex G \<notin> set (map fst (edges G))"
    using assms(1) unfolding graph_ok_def by blast
  then show ?thesis using assms(2,3) by (simp add: Graph_addEdge_def Map_set_fresh)
qed

text \<open>The library graph that addNode returns, written out.\<close>

definition addNode_graph :: "'a EffectGraph \<Rightarrow> 'a GraphNode \<Rightarrow> 'a GraphNode DirectedGraph" where
  "addNode_graph g n =
     \<lparr>nodes = nodes (graph g) @ [(nextNodeIndex (graph g), updateDepth g n)],
      edges = edges (graph g) @
              (case parentIndex g n of
                 None \<Rightarrow> []
               | Some pIdx \<Rightarrow> [(nextEdgeIndex (graph g), pIdx, nextNodeIndex (graph g))]),
      nextNodeIndex = Suc (nextNodeIndex (graph g)),
      nextEdgeIndex = (case parentIndex g n of
                         None \<Rightarrow> nextEdgeIndex (graph g)
                       | Some pIdx \<Rightarrow> Suc (nextEdgeIndex (graph g)))\<rparr>"

lemma nodeId_updateDepth [simp]: "nodeId (updateDepth g n) = nodeId n"
  by (simp add: updateDepth_def Let_def split: option.splits)

lemma parentId_updateDepth [simp]: "parentId (updateDepth g n) = parentId n"
  by (simp add: updateDepth_def Let_def split: option.splits)

lemma data_updateDepth [simp]: "data (updateDepth g n) = data n"
  by (simp add: updateDepth_def Let_def split: option.splits)

lemma findNodes_addNode_graph:
  "Graph_findNodes (addNode_graph g n) (\<lambda>m. nodeId m = nodeId n)
     = Graph_findNodes (graph g) (\<lambda>m. nodeId m = nodeId n) @ [nextNodeIndex (graph g)]"
  by (simp add: Graph_findNodes_def addNode_graph_def)

definition newNodeIndex :: "'a EffectGraph \<Rightarrow> 'a GraphNode \<Rightarrow> NodeIndex" where
  "newNodeIndex g n =
     (case Graph_findNodes (graph g) (\<lambda>m. nodeId m = nodeId n) of
        [] \<Rightarrow> nextNodeIndex (graph g)
      | i # _ \<Rightarrow> i)"

lemma parentIndex_hasNode:
  "idmap_ok g \<Longrightarrow> parentIndex g n = Some pIdx \<Longrightarrow> Graph_hasNode (graph g) pIdx"
  unfolding idmap_ok_def parentIndex_def by (auto split: Option.bind_splits)

lemma addNode_closed_form:
  assumes ok: "graph_ok (graph g)"
    and par: "\<And>pIdx. parentIndex g n = Some pIdx \<Longrightarrow> Graph_hasNode (graph g) pIdx"
  shows "addNode g n =
           Inr \<lparr>graph = addNode_graph g n,
                nodeIdToIndex = (nodeIdToIndex g)(nodeId n \<mapsto> newNodeIndex g n),
                indexToNodeId = (indexToNodeId g)(newNodeIndex g n \<mapsto> nodeId n)\<rparr>"
proof -
  let ?G = "graph g"
  let ?N = "nextNodeIndex ?G"
  let ?u = "updateDepth g n"
  let ?G1 = "?G\<lparr>nodes := nodes ?G @ [(?N, ?u)], nextNodeIndex := Suc ?N\<rparr>"
  have add: "Graph_addNode ?G ?u = (?N, ?G1)"
    by (rule Graph_addNode_ok [OF ok])
  have ok1: "graph_ok ?G1"
    using ok unfolding graph_ok_def Graph_hasNode_def by (auto simp: less_Suc_eq)
  have newN: "Graph_hasNode ?G1 ?N" by (simp add: Graph_hasNode_def)
  have mutated:
    "(case parentId n of
        None \<Rightarrow> Inr ?G1
      | Some p \<Rightarrow> (case nodeIdToIndex g p of
                     None \<Rightarrow> Inr ?G1
                   | Some pIdx \<Rightarrow> map_sum (\<lambda>e. e) snd (Graph_addEdge ?G1 pIdx ?N)))
     = (Inr (addNode_graph g n) :: error + 'a GraphNode DirectedGraph)"
  proof (cases "parentIndex g n")
    case None
    then show ?thesis
      by (auto simp: parentIndex_def addNode_graph_def split: option.splits)
  next
    case (Some pIdx)
    then obtain p where p: "parentId n = Some p" "nodeIdToIndex g p = Some pIdx"
      by (auto simp: parentIndex_def split: option.splits Option.bind_splits)
    have "Graph_hasNode ?G pIdx" by (rule par [OF Some])
    then have "Graph_hasNode ?G1 pIdx" by (simp add: Graph_hasNode_def)
    from Graph_addEdge_ok [OF ok1 this newN] p Some show ?thesis
      by (simp add: addNode_graph_def)
  qed
  have fn: "Graph_findNodes (addNode_graph g n) (\<lambda>m. nodeId m = nodeId ?u)
              = Graph_findNodes ?G (\<lambda>m. nodeId m = nodeId n) @ [?N]"
    using findNodes_addNode_graph [of g n] by simp
  show ?thesis
    unfolding addNode_def Let_def add prod.case mutated sum.case fn
    by (cases "Graph_findNodes ?G (\<lambda>m. nodeId m = nodeId n)") (simp_all add: newNodeIndex_def)
qed

lemma addNode_ok:
  assumes "graph_ok (graph g)" and "idmap_ok g"
  shows "addNode g n =
           Inr \<lparr>graph = addNode_graph g n,
                nodeIdToIndex = (nodeIdToIndex g)(nodeId n \<mapsto> newNodeIndex g n),
                indexToNodeId = (indexToNodeId g)(newNodeIndex g n \<mapsto> nodeId n)\<rparr>"
  using assms(1) parentIndex_hasNode [OF assms(2)] by (rule addNode_closed_form)

lemma graph_ok_addNode_graph:
  assumes ok: "graph_ok (graph g)"
    and par: "\<And>pIdx. parentIndex g n = Some pIdx \<Longrightarrow> Graph_hasNode (graph g) pIdx"
  shows "graph_ok (addNode_graph g n)"
proof -
  note par
  then show ?thesis
    using ok unfolding graph_ok_def Graph_hasNode_def addNode_graph_def
    by (auto simp: less_Suc_eq split: option.splits)
qed

lemma newNodeIndex_hasNode: "Graph_hasNode (addNode_graph g n) (newNodeIndex g n)"
proof (cases "Graph_findNodes (graph g) (\<lambda>m. nodeId m = nodeId n)")
  case Nil
  then show ?thesis by (simp add: newNodeIndex_def Graph_hasNode_def addNode_graph_def)
next
  case (Cons i rest)
  then have "i \<in> set (Graph_findNodes (graph g) (\<lambda>m. nodeId m = nodeId n))" by simp
  then have "i \<in> set (map fst (nodes (graph g)))"
    unfolding Graph_findNodes_def by auto
  then show ?thesis using Cons
    by (simp add: newNodeIndex_def Graph_hasNode_def addNode_graph_def)
qed

lemma idmap_ok_addNode:
  assumes "idmap_ok g"
  shows "idmap_ok \<lparr>graph = addNode_graph g n,
                   nodeIdToIndex = (nodeIdToIndex g)(nodeId n \<mapsto> newNodeIndex g n),
                   indexToNodeId = X\<rparr>"
  unfolding idmap_ok_def
proof (intro allI impI)
  fix i k assume "nodeIdToIndex \<lparr>graph = addNode_graph g n,
                   nodeIdToIndex = (nodeIdToIndex g)(nodeId n \<mapsto> newNodeIndex g n),
                   indexToNodeId = X\<rparr> i = Some k"
  then have i: "((nodeIdToIndex g)(nodeId n \<mapsto> newNodeIndex g n)) i = Some k"
    by simp
  show "Graph_hasNode (graph \<lparr>graph = addNode_graph g n,
                   nodeIdToIndex = (nodeIdToIndex g)(nodeId n \<mapsto> newNodeIndex g n),
                   indexToNodeId = X\<rparr>) k"
  proof (cases "i = nodeId n")
    case True
    with i show ?thesis using newNodeIndex_hasNode [of g n] by simp
  next
    case False
    with i have "nodeIdToIndex g i = Some k" by simp
    then have "Graph_hasNode (graph g) k"
      using assms unfolding idmap_ok_def by blast
    then show ?thesis by (simp add: Graph_hasNode_def addNode_graph_def)
  qed
qed

text \<open>Acyclicity of the grown graph.\<close>

lemma no_edge_from_new:
  assumes "graph_ok G"
  shows "(nextNodeIndex G, x) \<notin> (set (map snd (edges G)))\<^sup>*  \<or> x = nextNodeIndex G"
proof (rule ccontr)
  assume "\<not> ?thesis"
  then have r: "(nextNodeIndex G, x) \<in> (set (map snd (edges G)))\<^sup>*" and ne: "x \<noteq> nextNodeIndex G"
    by auto
  from r ne obtain y where "(nextNodeIndex G, y) \<in> set (map snd (edges G))"
    by (metis converse_rtranclE)
  then have "Graph_hasNode G (nextNodeIndex G)"
    using assms unfolding graph_ok_def by fastforce
  then show False using assms unfolding graph_ok_def Graph_hasNode_def by blast
qed

lemma acyclic_addNode_graph:
  assumes ok: "graph_ok (graph g)"
    and par: "\<And>pIdx. parentIndex g n = Some pIdx \<Longrightarrow> Graph_hasNode (graph g) pIdx"
  shows "Graph_isAcyclic (addNode_graph g n) \<longleftrightarrow> Graph_isAcyclic (graph g)"
proof (cases "parentIndex g n")
  case None
  then show ?thesis by (simp add: Graph_isAcyclic_def addNode_graph_def)
next
  case (Some pIdx)
  let ?N = "nextNodeIndex (graph g)"
  let ?E = "set (map snd (edges (graph g)))"
  have "Graph_hasNode (graph g) pIdx" by (rule par [OF Some])
  then have ne: "pIdx \<noteq> ?N"
    using ok unfolding graph_ok_def Graph_hasNode_def by blast
  have "(?N, pIdx) \<notin> ?E\<^sup>*"
    using no_edge_from_new [OF ok, of pIdx] ne by blast
  moreover have "set (map snd (edges (addNode_graph g n))) = insert (pIdx, ?N) ?E"
    using Some by (simp add: addNode_graph_def)
  ultimately show ?thesis
    by (simp add: Graph_isAcyclic_def acyclic_insert)
qed


text \<open>
  The graphs of the construction interface: \<^verbatim>\<open>empty\<close>, \<^verbatim>\<open>singleton\<close> and any number of
  \<^verbatim>\<open>addNode\<close> calls, with any node as argument.
\<close>

inductive built :: "'a EffectGraph \<Rightarrow> bool" where
  built_empty: "built empty"
| built_singleton: "built (singleton d newId now)"
| built_addNode: "built g \<Longrightarrow> addNode g n = Inr g' \<Longrightarrow> built g'"

text \<open>
  The graphs built with ids that are new each time: \<^verbatim>\<open>addNode\<close> is only given a node
  whose id the id map does not know yet.
\<close>

inductive built_fresh :: "'a EffectGraph \<Rightarrow> bool" where
  fresh_empty: "built_fresh empty"
| fresh_singleton: "built_fresh (singleton d newId now)"
| fresh_addNode:
    "built_fresh g \<Longrightarrow> nodeIdToIndex g (nodeId n) = None \<Longrightarrow> addNode g n = Inr g' \<Longrightarrow>
     built_fresh g'"

lemma built_fresh_built: "built_fresh g \<Longrightarrow> built g"
  by (induction rule: built_fresh.induct) (auto intro: built.intros)

lemma acyclic_no_edges [simp]: "acyclic {}"
  by (simp add: acyclic_def)

lemma set_map_filter: "set (List.map_filter f xs) = {y. \<exists>x \<in> set xs. f x = Some y}"
  by (induction xs) (auto split: option.splits)

lemma graph_ok_directed [simp]: "graph_ok Graph_directed"
  by (simp add: graph_ok_def Graph_directed_def)

lemma acyclic_directed [simp]: "Graph_isAcyclic Graph_directed"
  by (simp add: Graph_isAcyclic_def Graph_directed_def)

lemma empty_ok: "graph_ok (graph empty) \<and> idmap_ok empty \<and> Graph_isAcyclic (graph empty)"
  by (simp add: empty_def idmap_ok_def)

lemma singleton_ok:
  "graph_ok (graph (singleton d newId now)) \<and> idmap_ok (singleton d newId now)
   \<and> Graph_isAcyclic (graph (singleton d newId now))"
  by (simp add: singleton_def Let_def Graph_addNode_ok idmap_ok_def Graph_hasNode_def
      graph_ok_def Graph_isAcyclic_def Graph_directed_def split: if_splits)

lemma built_ok: "built g \<Longrightarrow> graph_ok (graph g) \<and> idmap_ok g \<and> Graph_isAcyclic (graph g)"
proof (induction rule: built.induct)
  case built_empty
  show ?case by (rule empty_ok)
next
  case (built_singleton d newId now)
  show ?case by (rule singleton_ok)
next
  case (built_addNode g n g')
  then have ok: "graph_ok (graph g)" and idm: "idmap_ok g" and ac: "Graph_isAcyclic (graph g)"
    by simp_all
  have g': "g' = \<lparr>graph = addNode_graph g n,
                nodeIdToIndex = (nodeIdToIndex g)(nodeId n \<mapsto> newNodeIndex g n),
                indexToNodeId = (indexToNodeId g)(newNodeIndex g n \<mapsto> nodeId n)\<rparr>"
    using addNode_ok [OF ok idm, of n] built_addNode.hyps(2) by simp
  have "graph_ok (graph g')"
    unfolding g' using graph_ok_addNode_graph [OF ok parentIndex_hasNode [OF idm]] by simp
  moreover have "idmap_ok g'"
    unfolding g' by (rule idmap_ok_addNode [OF idm])
  moreover have "Graph_isAcyclic (graph g')"
    unfolding g' using acyclic_addNode_graph [OF ok parentIndex_hasNode [OF idm], of n] ac by simp
  ultimately show ?case by simp
qed

text \<open>
  Claim C5. After every call of a sequence of \<^verbatim>\<open>addNode\<close> calls that starts from
  \<^verbatim>\<open>empty\<close> or \<^verbatim>\<open>singleton\<close> the graph is acyclic: \<^verbatim>\<open>isAcyclic\<close> holds of every graph
  built through the construction interface, every further \<^verbatim>\<open>addNode\<close> call on it returns,
  and \<^verbatim>\<open>isAcyclic\<close> holds of what it returns.
\<close>

theorem addNode_sequence_acyclic:
  assumes "built g"
  shows "isAcyclic (graph g) \<and> (\<exists>g'. addNode g n = Inr g' \<and> isAcyclic (graph g'))"
proof -
  from built_ok [OF assms] have ok: "graph_ok (graph g)" and idm: "idmap_ok g"
    and ac: "Graph_isAcyclic (graph g)" by simp_all
  from addNode_ok [OF ok idm, of n] obtain g' where g': "addNode g n = Inr g'" by blast
  from built_ok [OF built_addNode [OF assms g']] have "Graph_isAcyclic (graph g')" by simp
  with ac g' show ?thesis by (simp add: isAcyclic_def)
qed


definition setDepth :: "int \<Rightarrow> 'a GraphNode \<Rightarrow> 'a GraphNode" where
  "setDepth k n = n\<lparr>metadata := (metadata n)\<lparr>depth := k\<rparr>\<rparr>"

lemma Graph_getNode_new:
  assumes "graph_ok (graph g)"
  shows "Graph_getNode (addNode_graph g n) (nextNodeIndex (graph g)) = Some (updateDepth g n)"
proof -
  have "nextNodeIndex (graph g) \<notin> set (map fst (nodes (graph g)))"
    using assms unfolding graph_ok_def by blast
  then have "map_of (nodes (graph g)) (nextNodeIndex (graph g)) = None"
    by (simp add: map_of_eq_None_iff)
  then show ?thesis
    by (simp add: Graph_getNode_def Map_get_def addNode_graph_def map_add_def)
qed

lemma new_node_is_root:
  assumes ok: "graph_ok (graph g)" and np: "parentIndex g n = None"
    and graph': "graph g' = addNode_graph g n"
  shows "updateDepth g n \<in> set (getRoots g')"
proof -
  let ?N = "nextNodeIndex (graph g)"
  have "?N \<notin> set (map (\<lambda>(e, s, t). t) (edges (graph g)))"
  proof
    assume "?N \<in> set (map (\<lambda>(e, s, t). t) (edges (graph g)))"
    then obtain e s where "(e, s, ?N) \<in> set (edges (graph g))" by auto
    then have "Graph_hasNode (graph g) ?N"
      using ok unfolding graph_ok_def by blast
    then show False using ok unfolding graph_ok_def Graph_hasNode_def by blast
  qed
  then have "?N \<in> set (map fst (Graph_externals_incoming (addNode_graph g n)))"
    using np by (simp add: Graph_externals_incoming_def addNode_graph_def)
  moreover note Graph_getNode_new [OF ok, of n]
  ultimately show ?thesis
    unfolding getRoots_def graph' set_map_filter by force
qed

text \<open>
  Claim C10. When the node's \<^verbatim>\<open>parentId\<close> is \<^verbatim>\<open>Some p\<close> and \<^verbatim>\<open>p\<close> is not an id the graph
  knows, \<^verbatim>\<open>addNode\<close> does not fail: it inserts the node with depth 1 and adds no edge, so
  the node is among \<^verbatim>\<open>getRoots\<close> of the result while its \<^verbatim>\<open>parentId\<close> is still
  \<^verbatim>\<open>Some p\<close>.
\<close>

theorem addNode_unknown_parent:
  assumes "graph_ok (graph g)" and "parentId n = Some p" and "nodeIdToIndex g p = None"
  shows "\<exists>g'. addNode g n = Inr g'
           \<and> edges (graph g') = edges (graph g)
           \<and> Graph_getNode (graph g') (nextNodeIndex (graph g)) = Some (setDepth 1 n)
           \<and> setDepth 1 n \<in> set (getRoots g')
           \<and> depth (metadata (setDepth 1 n)) = 1
           \<and> parentId (setDepth 1 n) = Some p"
proof -
  have np: "parentIndex g n = None" using assms(2,3) by (simp add: parentIndex_def)
  have u: "updateDepth g n = setDepth 1 n"
    using assms(2,3) by (simp add: updateDepth_def setDepth_def)
  let ?g' = "\<lparr>graph = addNode_graph g n,
                nodeIdToIndex = (nodeIdToIndex g)(nodeId n \<mapsto> newNodeIndex g n),
                indexToNodeId = (indexToNodeId g)(newNodeIndex g n \<mapsto> nodeId n)\<rparr>"
  have a: "addNode g n = Inr ?g'"
    using assms(1) by (rule addNode_closed_form) (simp add: np)
  have "edges (graph ?g') = edges (graph g)" using np by (simp add: addNode_graph_def)
  moreover have "Graph_getNode (graph ?g') (nextNodeIndex (graph g)) = Some (setDepth 1 n)"
    using Graph_getNode_new [OF assms(1), of n] u by simp
  moreover have "setDepth 1 n \<in> set (getRoots ?g')"
    using new_node_is_root [OF assms(1) np, of ?g'] u by simp
  ultimately show ?thesis using a assms(2) by (simp add: setDepth_def)
qed


definition node_a :: "string GraphNode" where
  "node_a = makeNode ''doc'' None None ''a'' 0"

definition node_b :: "string GraphNode" where
  "node_b = makeNode ''s1'' (Some ''a'') (Some ''sentencize'') ''b'' 1"

definition node_c :: "string GraphNode" where
  "node_c = makeNode ''s2'' (Some ''b'') (Some ''sentencize'') ''c'' 2"

definition node_orphan :: "string GraphNode" where
  "node_orphan = makeNode ''s3'' (Some ''zz'') None ''o'' 3"






theorem addNode_sequence_acyclic_witness:
  "built (singleton ''doc'' ''a'' 0)
   \<and> isAcyclic (graph (singleton ''doc'' ''a'' 0))
   \<and> (\<exists>g'. addNode (singleton ''doc'' ''a'' 0) node_b = Inr g' \<and> isAcyclic (graph g'))"
proof -
  have b: "built (singleton ''doc'' ''a'' 0 :: string EffectGraph)" by (rule built_singleton)
  from addNode_sequence_acyclic [OF b, of node_b] b show ?thesis by blast
qed

theorem addNode_unknown_parent_witness:
  "graph_ok (graph (singleton ''doc'' ''a'' 0)) \<and> parentId node_orphan = Some ''zz''
   \<and> nodeIdToIndex (singleton ''doc'' ''a'' 0) ''zz'' = None
   \<and> (\<exists>g'. addNode (singleton ''doc'' ''a'' 0) node_orphan = Inr g'
         \<and> edges (graph g') = edges (graph (singleton ''doc'' ''a'' 0))
         \<and> Graph_getNode (graph g') (nextNodeIndex (graph (singleton ''doc'' ''a'' 0)))
             = Some (setDepth 1 node_orphan)
         \<and> setDepth 1 node_orphan \<in> set (getRoots g')
         \<and> depth (metadata (setDepth 1 node_orphan)) = 1
         \<and> parentId (setDepth 1 node_orphan) = Some ''zz'')"
proof -
  have ok: "graph_ok (graph (singleton ''doc'' ''a'' 0 :: string EffectGraph))"
    using singleton_ok [of "''doc''" "''a''" 0] by simp
  have p: "parentId node_orphan = Some ''zz''" by (simp add: node_orphan_def makeNode_def)
  have m: "nodeIdToIndex (singleton ''doc'' ''a'' 0 :: string EffectGraph) ''zz'' = None"
    by (simp add: singleton_def Let_def Graph_addNode_def makeNode_def)
  from addNode_unknown_parent [OF ok p m] ok p m show ?thesis by blast
qed





section \<open>Depths\<close>






lemma Graph_getNode_in_nodes:
  "Graph_getNode G k = Some m \<Longrightarrow> (k, m) \<in> set (nodes G)"
  by (simp add: Graph_getNode_def Map_get_def map_of_SomeD)











definition graph_ab :: "string EffectGraph" where
  "graph_ab =
     \<lparr>graph = \<lparr>nodes = [(0, node_a), (1, node_b)], edges = [(0, 0, 1)],
               nextNodeIndex = 2, nextEdgeIndex = 1\<rparr>,
      nodeIdToIndex = [''a'' \<mapsto> 0, ''b'' \<mapsto> 1],
      indexToNodeId = [0 \<mapsto> ''a'', 1 \<mapsto> ''b'']\<rparr>"

lemma addNode_singleton_node_b: "addNode (singleton ''doc'' ''a'' 0) node_b = Inr graph_ab"
  by (simp add: addNode_def updateDepth_def Graph_addNode_def Graph_addEdge_def
      Graph_hasNode_def Graph_findNodes_def Graph_getNode_def Map_get_def Map_set_def
      singleton_def Graph_directed_def graph_ab_def node_a_def node_b_def makeNode_def Let_def)











section \<open>The functor laws\<close>

text \<open>
  The library numbers nodes and edges from 0 upwards and EffectGraph never removes one,
  so the tables of every graph the module builds hold the indices \<open>0, 1, 2, \<dots>\<close> in order
  (\<open>built_dense\<close> below). \<^verbatim>\<open>map\<close> renumbers the nodes in table order; on such a graph the
  renumbering is the identity.
\<close>

definition dense :: "'n DirectedGraph \<Rightarrow> bool" where
  "dense G \<longleftrightarrow>
     map fst (nodes G) = [0..<nextNodeIndex G] \<and> map fst (edges G) = [0..<nextEdgeIndex G]
     \<and> (\<forall>(e, s, t) \<in> set (edges G). s < nextNodeIndex G \<and> t < nextNodeIndex G)"

text \<open>The graph with a function applied to every node entry, indices and edges kept.\<close>

definition relabel :: "('n \<Rightarrow> 'm) \<Rightarrow> 'n DirectedGraph \<Rightarrow> 'm DirectedGraph" where
  "relabel k G =
     \<lparr>nodes = map (\<lambda>(i, v). (i, k v)) (nodes G), edges = edges G,
      nextNodeIndex = nextNodeIndex G, nextEdgeIndex = nextEdgeIndex G\<rparr>"

text \<open>
  What the first loop of \<^verbatim>\<open>map\<close> produces: the nodes numbered from the counter on, and
  the two index tables.
\<close>

fun renumber :: "nat \<Rightarrow> 'v list \<Rightarrow> (nat \<times> 'v) list" where
  "renumber N [] = []"
| "renumber N (v # vs) = (N, v) # renumber (Suc N) vs"



lemma map_fst_renumber: "map fst (renumber N vs) = [N..<N + length vs]"
  by (induction vs arbitrary: N) (auto simp: upt_rec)

lemma map_snd_renumber [simp]: "map snd (renumber N vs) = vs"
  by (induction vs arbitrary: N) auto









text \<open>One edge of the old graph, added to a dense new graph.\<close>

lemma hasNode_dense: "dense G \<Longrightarrow> Graph_hasNode G i \<longleftrightarrow> i < nextNodeIndex G"
  by (simp add: dense_def Graph_hasNode_def)

lemma Graph_addEdge_dense:
  assumes "dense G" and "s < nextNodeIndex G" and "t < nextNodeIndex G"
  shows "Graph_addEdge G s t =
           Inr (nextEdgeIndex G, G\<lparr>edges := edges G @ [(nextEdgeIndex G, s, t)],
                                    nextEdgeIndex := Suc (nextEdgeIndex G)\<rparr>)"
proof -
  have "nextEdgeIndex G \<notin> set (map fst (edges G))"
    using assms(1) by (simp add: dense_def)
  then show ?thesis
    using assms by (simp add: Graph_addEdge_def hasNode_dense Map_set_fresh)
qed

lemma map_edge_dense:
  assumes d: "dense G" and r: "map_edge old im e G = Inr G'"
  shows "dense G' \<and> nodes G' = nodes G \<and> nextNodeIndex G' = nextNodeIndex G"
proof (cases "Graph_getEdge old e")
  case None
  with d r show ?thesis by (simp add: map_edge_def)
next
  case (Some st)
  obtain s t where st: "st = (s, t)" by (cases st)
  from r Some st obtain s' t' where im: "Map_get im s = Some s'" "Map_get im t = Some t'"
    and a: "map_sum (\<lambda>e. e) snd (Graph_addEdge G s' t') = Inr G'"
    by (auto simp: map_edge_def split: option.splits if_splits)
  from a have has: "Graph_hasNode G s'" "Graph_hasNode G t'"
    by (auto simp: Graph_addEdge_def split: if_splits)
  then have lt: "s' < nextNodeIndex G" "t' < nextNodeIndex G"
    using d by (simp_all add: hasNode_dense)
  from a Graph_addEdge_dense [OF d lt]
  have G': "G' = G\<lparr>edges := edges G @ [(nextEdgeIndex G, s', t')],
                   nextEdgeIndex := Suc (nextEdgeIndex G)\<rparr>" by simp
  show ?thesis using d lt unfolding G' dense_def by auto
qed

lemma map_edges_Inl [simp]:
  "fold (\<lambda>edgeIdx acc. case acc of Inl e \<Rightarrow> Inl e | Inr G' \<Rightarrow> map_edge old im edgeIdx G') es (Inl e)
     = Inl e"
  by (induction es) auto

lemma map_edges_Cons:
  "map_edges old im (e # es) G =
     (case map_edge old im e G of Inl x \<Rightarrow> Inl x | Inr G' \<Rightarrow> map_edges old im es G')"
  by (simp add: map_edges_def split: sum.splits)

lemma map_edges_Nil [simp]: "map_edges old im [] G = Inr G"
  by (simp add: map_edges_def)

lemma map_edges_dense:
  assumes "dense G" and "map_edges old im es G = Inr G'"
  shows "dense G' \<and> nodes G' = nodes G \<and> nextNodeIndex G' = nextNodeIndex G"
  using assms
proof (induction es arbitrary: G)
  case Nil
  then show ?case by simp
next
  case (Cons e es)
  from Cons.prems(2) obtain G1 where 1: "map_edge old im e G = Inr G1"
    and 2: "map_edges old im es G1 = Inr G'"
    by (auto simp: map_edges_Cons split: sum.splits)
  from map_edge_dense [OF Cons.prems(1) 1] Cons.IH [OF _ 2] show ?case by simp
qed

text \<open>Adding the edges does not look at the node data.\<close>

lemma hasNode_relabel [simp]: "Graph_hasNode (relabel k G) i = Graph_hasNode G i"
  by (simp add: Graph_hasNode_def relabel_def comp_def case_prod_unfold)











lemma mapNode_ident [simp]: "mapNode (\<lambda>x. x) v = v"
  by (simp add: mapNode_def)




lemma dense_relabel [simp]: "dense (relabel k G) = dense G"
  by (simp add: dense_def relabel_def case_prod_unfold comp_def)


lemma dense_graph_ok: "dense G \<Longrightarrow> graph_ok G"
  unfolding dense_def graph_ok_def Graph_hasNode_def by auto

lemma dense_addNode_graph:
  assumes d: "dense (graph g)"
    and par: "\<And>pIdx. parentIndex g n = Some pIdx \<Longrightarrow> Graph_hasNode (graph g) pIdx"
  shows "dense (addNode_graph g n)"
proof -
  have "pIdx < nextNodeIndex (graph g)" if "parentIndex g n = Some pIdx" for pIdx
    using par [OF that] d by (simp add: hasNode_dense)
  then show ?thesis
    using d unfolding dense_def addNode_graph_def
    by (auto simp: less_Suc_eq split: option.splits)
qed

lemma built_dense: "built g \<Longrightarrow> dense (graph g)"
proof (induction rule: built.induct)
  case built_empty
  show ?case by (simp add: empty_def Graph_directed_def dense_def)
next
  case (built_singleton d newId now)
  show ?case
    by (simp add: singleton_def Let_def Graph_addNode_def Graph_directed_def Map_set_def dense_def)
next
  case (built_addNode g n g')
  from built_ok [OF built_addNode.hyps(1)] have ok: "graph_ok (graph g)" and idm: "idmap_ok g"
    by simp_all
  have "graph g' = addNode_graph g n"
    using addNode_ok [OF ok idm, of n] built_addNode.hyps(2) by auto
  then show ?case
    using dense_addNode_graph [OF built_addNode.IH parentIndex_hasNode [OF idm]] by simp
qed

text \<open>
  \<^verbatim>\<open>map\<close> rebuilds the two id maps from \<^verbatim>\<open>nodeMap\<close>, which binds every id to the last
  index that carries it. The id maps of a graph are exact when every node has an id of
  its own and the two maps are the node table read in both directions.
\<close>

definition idmaps_exact :: "'a EffectGraph \<Rightarrow> bool" where
  "idmaps_exact g \<longleftrightarrow>
     distinct (map (\<lambda>(k, m). nodeId m) (nodes (graph g)))
     \<and> nodeIdToIndex g = map_of (map (\<lambda>(k, m). (nodeId m, k)) (nodes (graph g)))
     \<and> indexToNodeId g = map_of (map (\<lambda>(k, m). (k, nodeId m)) (nodes (graph g)))"






lemma map_add_fresh: "m k = None \<Longrightarrow> [k \<mapsto> v] ++ m = m(k \<mapsto> v)"
  by (auto simp: fun_eq_iff map_add_def split: option.splits)

lemma built_fresh_idmaps_exact: "built_fresh g \<Longrightarrow> idmaps_exact g"
proof (induction rule: built_fresh.induct)
  case fresh_empty
  show ?case by (simp add: idmaps_exact_def empty_def Graph_directed_def)
next
  case (fresh_singleton d newId now)
  show ?case
    by (simp add: idmaps_exact_def singleton_def Let_def Graph_addNode_def Graph_directed_def
        Map_set_def makeNode_def)
next
  case (fresh_addNode g n g')
  let ?ns = "nodes (graph g)"
  let ?N = "nextNodeIndex (graph g)"
  from built_ok [OF built_fresh_built [OF fresh_addNode.hyps(1)]]
  have ok: "graph_ok (graph g)" and idm: "idmap_ok g" by simp_all
  note ex = fresh_addNode.IH [unfolded idmaps_exact_def]
  have nid: "map_of (map (\<lambda>(k, m). (nodeId m, k)) ?ns) (nodeId n) = None"
    using ex fresh_addNode.hyps(2) by simp
  then have notin: "nodeId n \<notin> set (map (\<lambda>(k, m). nodeId m) ?ns)"
    by (auto simp: map_of_eq_None_iff image_iff case_prod_unfold)
  then have none: "Graph_findNodes (graph g) (\<lambda>m. nodeId m = nodeId n) = []"
    by (force simp: Graph_findNodes_def filter_empty_conv image_iff)
  then have new: "newNodeIndex g n = ?N" by (simp add: newNodeIndex_def)
  have g': "g' = \<lparr>graph = addNode_graph g n,
                nodeIdToIndex = (nodeIdToIndex g)(nodeId n \<mapsto> ?N),
                indexToNodeId = (indexToNodeId g)(?N \<mapsto> nodeId n)\<rparr>"
    using addNode_ok [OF ok idm, of n] fresh_addNode.hyps(3) new by simp
  have nodes': "nodes (addNode_graph g n) = ?ns @ [(?N, updateDepth g n)]"
    by (simp add: addNode_graph_def)
  have Nfresh: "map_of (map (\<lambda>(k, m). (k, nodeId m)) ?ns) ?N = None"
    using ok by (force simp: map_of_eq_None_iff graph_ok_def image_iff case_prod_unfold)
  have 1: "distinct (map (\<lambda>(k, m). nodeId m) (nodes (graph g')))"
    using ex notin by (simp add: g' nodes')
  have 2: "nodeIdToIndex g' = map_of (map (\<lambda>(k, m). (nodeId m, k)) (nodes (graph g')))"
    using ex nid by (simp add: g' nodes' map_add_fresh)
  have 3: "indexToNodeId g' = map_of (map (\<lambda>(k, m). (k, nodeId m)) (nodes (graph g')))"
    using ex Nfresh by (simp add: g' nodes' map_add_fresh)
  from 1 2 3 show ?case unfolding idmaps_exact_def by blast
qed














section \<open>The fold visits every node once, children first\<close>

text \<open>
  The ids of the children of a node as \<^verbatim>\<open>go\<close> sees them, the relation "is a child of"
  on ids, and the ids that can be reached downwards from an id.
\<close>

definition chs :: "'a EffectGraph \<Rightarrow> NodeId \<Rightarrow> NodeId list" where
  "chs g n = map nodeId (getChildren g n)"

definition child_rel :: "'a EffectGraph \<Rightarrow> (NodeId \<times> NodeId) set" where
  "child_rel g = {(c, n). c \<in> set (chs g n)}"

definition desc :: "'a EffectGraph \<Rightarrow> NodeId \<Rightarrow> NodeId set" where
  "desc g n = {m. (m, n) \<in> (child_rel g)\<^sup>*}"

text \<open>
  A list of calls is bottom-up when every call comes after the calls for all children of
  its node. The invariant of the fold's state: the memo table holds exactly the ids in
  the list of calls, no id was called twice, the list is bottom-up, and every id in it
  was found by \<^verbatim>\<open>getNode\<close>.
\<close>

definition bottom_up :: "'a EffectGraph \<Rightarrow> NodeId list \<Rightarrow> bool" where
  "bottom_up g xs \<longleftrightarrow> (\<forall>i < length xs. set (chs g (xs ! i)) \<subseteq> set (take i xs))"

definition fold_inv :: "'a EffectGraph \<Rightarrow> 'b cata_state \<Rightarrow> bool" where
  "fold_inv g st \<longleftrightarrow>
     dom (memo st) = set (calls st) \<and> distinct (calls st) \<and> bottom_up g (calls st)
     \<and> (\<forall>n \<in> set (calls st). getNode g n \<noteq> None)"

text \<open>
  What one run of \<^verbatim>\<open>go\<close>, and one run over a list of ids, has done when it is back: it
  has returned; if with an error, the error names an id below the start that
  \<^verbatim>\<open>getNode\<close> does not find; if with a result, the calls it added are exactly the ids
  below the start that had not been called before, and all ids below the start are found.
\<close>

definition go_post ::
  "'a EffectGraph \<Rightarrow> NodeId \<Rightarrow> 'b cata_state \<Rightarrow> (error + 'b \<times> 'b cata_state) option \<Rightarrow> bool" where
  "go_post g n st res \<longleftrightarrow>
     (case res of
        None \<Rightarrow> False
      | Some (Inl e) \<Rightarrow> (\<exists>m \<in> desc g n. getNode g m = None \<and> e = NodeNotFound m)
      | Some (Inr (r, st')) \<Rightarrow>
          fold_inv g st'
          \<and> (\<exists>new. calls st' = calls st @ new \<and> set new = desc g n - set (calls st))
          \<and> (\<forall>m \<in> desc g n. getNode g m \<noteq> None))"

definition all_post ::
  "'a EffectGraph \<Rightarrow> NodeId list \<Rightarrow> 'b cata_state \<Rightarrow> (error + 'b list \<times> 'b cata_state) option \<Rightarrow> bool" where
  "all_post g ns st res \<longleftrightarrow>
     (case res of
        None \<Rightarrow> False
      | Some (Inl e) \<Rightarrow> (\<exists>n \<in> set ns. \<exists>m \<in> desc g n. getNode g m = None \<and> e = NodeNotFound m)
      | Some (Inr (rs, st')) \<Rightarrow>
          length rs = length ns \<and> fold_inv g st'
          \<and> (\<exists>new. calls st' = calls st @ new \<and> set new = (\<Union>n \<in> set ns. desc g n) - set (calls st))
          \<and> (\<forall>n \<in> set ns. \<forall>m \<in> desc g n. getNode g m \<noteq> None))"

text \<open>More fuel does not change a run that has returned.\<close>

lemma Effect_all_mono:
  assumes "\<And>st x y. x \<in> set xs \<Longrightarrow> f st x = Some y \<Longrightarrow> f' st x = Some y"
    and "Effect_all f st xs = Some z"
  shows "Effect_all f' st xs = Some z"
  using assms
proof (induction xs arbitrary: st z)
  case Nil
  then show ?case by simp
next
  case (Cons x xs)
  from Cons.prems(2) obtain y where y: "f st x = Some y"
    by (cases "f st x") auto
  then have y': "f' st x = Some y" using Cons.prems(1) by simp
  show ?case
  proof (cases y)
    case (Inl e)
    with y y' Cons.prems(2) show ?thesis by simp
  next
    case (Inr p)
    obtain r st1 where p: "p = (r, st1)" by (cases p)
    from Cons.prems(2) y Inr p obtain w where w: "Effect_all f st1 xs = Some w"
      by (cases "Effect_all f st1 xs") auto
    have "Effect_all f' st1 xs = Some w"
      by (rule Cons.IH [OF _ w]) (simp add: Cons.prems(1))
    with w y y' Inr p Cons.prems(2) show ?thesis by simp
  qed
qed

lemma go_mono_Suc: "go k g alg st n = Some y \<Longrightarrow> go (Suc k) g alg st n = Some y"
proof (induction k arbitrary: st n y)
  case 0
  then show ?case by simp
next
  case (Suc k)
  show ?case
  proof (cases "memo st n")
    case (Some r)
    with Suc.prems show ?thesis by simp
  next
    case None
    note m = None
    show ?thesis
    proof (cases "getNode g n")
      case None
      with m Suc.prems show ?thesis by simp
    next
      case (Some node)
      from Suc.prems m Some obtain z where
        z: "Effect_all (go k g alg) st (map nodeId (getChildren g n)) = Some z"
        by (cases "Effect_all (go k g alg) st (map nodeId (getChildren g n))") auto
      have "Effect_all (go (Suc k) g alg) st (map nodeId (getChildren g n)) = Some z"
        by (rule Effect_all_mono [OF _ z]) (rule Suc.IH)
      with z Suc.prems m Some show ?thesis by (simp del: go.simps(2) add: go.simps(2) [of "Suc k"] go.simps(2) [of k])
    qed
  qed
qed

lemma go_mono_add: "go k g alg st n = Some y \<Longrightarrow> go (k + j) g alg st n = Some y"
  by (induction j) (auto dest: go_mono_Suc)

lemma go_mono: "go k g alg st n = Some y \<Longrightarrow> k \<le> k' \<Longrightarrow> go k' g alg st n = Some y"
  using go_mono_add [of k g alg st n y "k' - k"] by simp


text \<open>Descendants and the order of the calls.\<close>

lemma desc_refl [simp]: "n \<in> desc g n"
  by (simp add: desc_def)

lemma desc_child: "c \<in> set (chs g n) \<Longrightarrow> desc g c \<subseteq> desc g n"
  unfolding desc_def child_rel_def by (auto intro: rtrancl_into_rtrancl)

lemma desc_unfold: "desc g n = insert n (\<Union>c \<in> set (chs g n). desc g c)"
proof
  show "desc g n \<subseteq> insert n (\<Union>c \<in> set (chs g n). desc g c)"
  proof
    fix m assume "m \<in> desc g n"
    then have "(m, n) \<in> (child_rel g)\<^sup>*" by (simp add: desc_def)
    then show "m \<in> insert n (\<Union>c \<in> set (chs g n). desc g c)"
    proof (cases rule: rtranclE)
      case base
      then show ?thesis by simp
    next
      case (step c)
      then have "c \<in> set (chs g n)" and "m \<in> desc g c"
        by (simp_all add: child_rel_def desc_def)
      then show ?thesis by blast
    qed
  qed
next
  show "insert n (\<Union>c \<in> set (chs g n). desc g c) \<subseteq> desc g n"
    using desc_child [of _ g n] by auto
qed

lemma bottom_up_children:
  assumes "bottom_up g xs" and "n \<in> set xs"
  shows "set (chs g n) \<subseteq> set xs"
proof -
  from assms(2) obtain i where i: "i < length xs" "xs ! i = n"
    by (auto simp: in_set_conv_nth)
  with assms(1) have "set (chs g n) \<subseteq> set (take i xs)"
    unfolding bottom_up_def by blast
  then show ?thesis using set_take_subset [of i xs] by blast
qed

lemma bottom_up_desc:
  assumes bu: "bottom_up g xs" and n: "n \<in> set xs"
  shows "desc g n \<subseteq> set xs"
proof
  fix m assume "m \<in> desc g n"
  then have "(m, n) \<in> (child_rel g)\<^sup>*" by (simp add: desc_def)
  then show "m \<in> set xs"
  proof (induction rule: converse_rtrancl_induct)
    case base
    show ?case by (rule n)
  next
    case (step y z)
    then have "y \<in> set (chs g z)" by (simp add: child_rel_def)
    with bottom_up_children [OF bu step.IH] show ?case by blast
  qed
qed

lemma bottom_up_snoc:
  assumes "bottom_up g xs" and "set (chs g n) \<subseteq> set xs"
  shows "bottom_up g (xs @ [n])"
  unfolding bottom_up_def
proof (intro allI impI)
  fix i assume "i < length (xs @ [n])"
  then consider "i < length xs" | "i = length xs" by force
  then show "set (chs g ((xs @ [n]) ! i)) \<subseteq> set (take i (xs @ [n]))"
  proof cases
    case 1
    with assms(1) show ?thesis by (simp add: bottom_up_def nth_append)
  next
    case 2
    with assms(2) show ?thesis by simp
  qed
qed

lemma wf_not_own_descendant:
  assumes "wf (child_rel g)" and "c \<in> set (chs g n)"
  shows "n \<notin> desc g c"
proof
  assume "n \<in> desc g c"
  then have "(n, c) \<in> (child_rel g)\<^sup>*" by (simp add: desc_def)
  moreover have "(c, n) \<in> child_rel g" using assms(2) by (simp add: child_rel_def)
  ultimately have "(n, n) \<in> (child_rel g)\<^sup>+" by (rule rtrancl_into_trancl1)
  with wf_acyclic [OF assms(1)] show False by (simp add: acyclic_def)
qed

text \<open>The runs of a list of folds, given what each fold does.\<close>

lemma Effect_all_post:
  assumes f: "\<And>n st. n \<in> set ns \<Longrightarrow> fold_inv g st \<Longrightarrow> go_post g n st (f st n)"
    and inv: "fold_inv g st"
  shows "all_post g ns st (Effect_all f st ns)"
  using assms
proof (induction ns arbitrary: st)
  case Nil
  then show ?case by (simp add: all_post_def)
next
  case (Cons n ns)
  have gp: "go_post g n st (f st n)" by (rule Cons.prems(1) [OF _ Cons.prems(2)]) simp
  show ?case
  proof (cases "f st n")
    case None
    with gp show ?thesis by (simp add: go_post_def)
  next
    case (Some y)
    show ?thesis
    proof (cases y)
      case (Inl e)
      with gp Some show ?thesis by (auto simp: go_post_def all_post_def)
    next
      case (Inr p)
      obtain r st1 where p: "p = (r, st1)" by (cases p)
      from gp Some Inr p have inv1: "fold_inv g st1"
        and res1: "\<forall>m \<in> desc g n. getNode g m \<noteq> None"
        by (simp_all add: go_post_def)
      from gp Some Inr p obtain new1 where new1: "calls st1 = calls st @ new1"
        "set new1 = desc g n - set (calls st)"
        by (auto simp: go_post_def)
      have ap: "all_post g ns st1 (Effect_all f st1 ns)"
        by (rule Cons.IH [OF _ inv1]) (simp add: Cons.prems(1))
      show ?thesis
      proof (cases "Effect_all f st1 ns")
        case None
        with ap show ?thesis by (simp add: all_post_def)
      next
        case (Some z)
        note z = Some
        show ?thesis
        proof (cases z)
          case (Inl e)
          with ap z \<open>f st n = Some y\<close> \<open>y = Inr p\<close> p show ?thesis
            by (auto simp: all_post_def)
        next
          case (Inr q)
          obtain rs st2 where q: "q = (rs, st2)" by (cases q)
          from ap z Inr q have len: "length rs = length ns" and inv2: "fold_inv g st2"
            and res2: "\<forall>n \<in> set ns. \<forall>m \<in> desc g n. getNode g m \<noteq> None"
            by (simp_all add: all_post_def)
          from ap z Inr q obtain new2 where new2: "calls st2 = calls st1 @ new2"
            "set new2 = (\<Union>n \<in> set ns. desc g n) - set (calls st1)"
            by (auto simp: all_post_def)
          have c: "calls st2 = calls st @ (new1 @ new2)" using new1 new2 by simp
          have "set (new1 @ new2) = (\<Union>n \<in> set (n # ns). desc g n) - set (calls st)"
            using new1 new2 by auto
          with c have "\<exists>new. calls st2 = calls st @ new
                        \<and> set new = (\<Union>n \<in> set (n # ns). desc g n) - set (calls st)"
            by blast
          moreover have "Effect_all f st (n # ns) = Some (Inr (r # rs, st2))"
            using \<open>f st n = Some y\<close> \<open>y = Inr p\<close> p z Inr q by simp
          ultimately show ?thesis
            using len inv2 res1 res2 by (simp add: all_post_def)
        qed
      qed
    qed
  qed
qed


text \<open>One fold: it returns, and it calls the algebra on what was not yet folded.\<close>

lemma go_memo_hit:
  assumes inv: "fold_inv g st" and hit: "memo st n = Some r"
  shows "go_post g n st (Some (Inr (r, st)))"
proof -
  from inv hit have n: "n \<in> set (calls st)" by (auto simp: fold_inv_def)
  from inv have bu: "bottom_up g (calls st)" by (simp add: fold_inv_def)
  have sub: "desc g n \<subseteq> set (calls st)" by (rule bottom_up_desc [OF bu n])
  then have "desc g n - set (calls st) = {}" by blast
  then have "\<exists>new. calls st = calls st @ new \<and> set new = desc g n - set (calls st)" by simp
  moreover have "\<forall>m \<in> desc g n. getNode g m \<noteq> None"
    using sub inv by (auto simp: fold_inv_def)
  ultimately show ?thesis using inv by (simp add: go_post_def)
qed

lemma go_apply:
  assumes wf: "wf (child_rel g)" and inv: "fold_inv g st" and miss: "memo st n = None"
    and node: "getNode g n = Some node"
    and ap: "all_post g (chs g n) st (Some (Inr (rs, st1)))"
  shows "go_post g n st
           (Some (Inr (r, st1\<lparr>memo := (memo st1)(n \<mapsto> r), calls := calls st1 @ [n]\<rparr>)))"
proof -
  let ?st' = "st1\<lparr>memo := (memo st1)(n \<mapsto> r), calls := calls st1 @ [n]\<rparr>"
  from ap have inv1: "fold_inv g st1"
    and res: "\<forall>c \<in> set (chs g n). \<forall>m \<in> desc g c. getNode g m \<noteq> None"
    by (simp_all add: all_post_def)
  from ap obtain new1 where new1: "calls st1 = calls st @ new1"
    "set new1 = (\<Union>c \<in> set (chs g n). desc g c) - set (calls st)"
    by (auto simp: all_post_def)
  have n_old: "n \<notin> set (calls st)" using inv miss by (auto simp: fold_inv_def)
  have n_new: "n \<notin> (\<Union>c \<in> set (chs g n). desc g c)"
    using wf_not_own_descendant [OF wf] by blast
  have n1: "n \<notin> set (calls st1)" using n_old n_new new1 by auto
  have kids: "set (chs g n) \<subseteq> set (calls st1)"
  proof
    fix c assume c: "c \<in> set (chs g n)"
    then have "c \<in> (\<Union>c \<in> set (chs g n). desc g c)"
      using desc_refl [of c g] by blast
    then show "c \<in> set (calls st1)" using new1 by auto
  qed
  from inv1 have dom1: "dom (memo st1) = set (calls st1)" and dist1: "distinct (calls st1)"
    and bu1: "bottom_up g (calls st1)" and res1: "\<forall>x \<in> set (calls st1). getNode g x \<noteq> None"
    by (simp_all add: fold_inv_def)
  have "dom (memo ?st') = set (calls ?st')" using dom1 by simp
  moreover have "distinct (calls ?st')" using dist1 n1 by simp
  moreover have "bottom_up g (calls ?st')" using bottom_up_snoc [OF bu1 kids] by simp
  moreover have "\<forall>x \<in> set (calls ?st'). getNode g x \<noteq> None" using res1 node by simp
  ultimately have inv': "fold_inv g ?st'" unfolding fold_inv_def by blast
  have c': "calls ?st' = calls st @ (new1 @ [n])" using new1 by simp
  have "set (new1 @ [n]) = insert n ((\<Union>c \<in> set (chs g n). desc g c) - set (calls st))"
    using new1(2) by simp
  also have "\<dots> = insert n (\<Union>c \<in> set (chs g n). desc g c) - set (calls st)"
    using n_old by blast
  also have "\<dots> = desc g n - set (calls st)"
    by (simp only: desc_unfold [of g n, symmetric])
  finally have s': "set (new1 @ [n]) = desc g n - set (calls st)" .
  have r': "\<forall>m \<in> desc g n. getNode g m \<noteq> None"
  proof
    fix m assume "m \<in> desc g n"
    then have "m = n \<or> (\<exists>c \<in> set (chs g n). m \<in> desc g c)"
      by (subst (asm) desc_unfold) blast
    then show "getNode g m \<noteq> None" using res node by auto
  qed
  from c' s' have "\<exists>new. calls ?st' = calls st @ new \<and> set new = desc g n - set (calls st)"
    by blast
  with inv' r' show ?thesis
    unfolding go_post_def by (simp only: option.case sum.case prod.case)
qed

lemma go_terminates:
  assumes wf: "wf (child_rel g)"
  shows "\<exists>k. \<forall>st. fold_inv g st \<longrightarrow> go_post g n st (go k g alg st n)"
  using wf
proof (induction n rule: wf_induct_rule)
  case (less n)
  have "\<forall>c \<in> set (chs g n). \<exists>k. \<forall>st. fold_inv g st \<longrightarrow> go_post g c st (go k g alg st c)"
    using less.IH by (simp add: child_rel_def)
  then obtain kf where kf:
    "\<forall>c \<in> set (chs g n). \<forall>st. fold_inv g st \<longrightarrow> go_post g c st (go (kf c) g alg st c)"
    by (auto dest: bchoice)
  define K where "K = Max (insert 0 (kf ` set (chs g n)))"
  have le: "kf c \<le> K" if "c \<in> set (chs g n)" for c
    unfolding K_def using that by (intro Max_ge) auto
  have step: "go_post g c st (go K g alg st c)"
    if c: "c \<in> set (chs g n)" and inv: "fold_inv g st" for c st
  proof -
    from kf c inv have gp: "go_post g c st (go (kf c) g alg st c)" by blast
    then obtain y where "go (kf c) g alg st c = Some y"
      by (cases "go (kf c) g alg st c") (auto simp: go_post_def)
    with go_mono [OF this le [OF c]] gp show ?thesis by simp
  qed
  have "\<forall>st. fold_inv g st \<longrightarrow> go_post g n st (go (Suc K) g alg st n)"
  proof (intro allI impI)
    fix st :: "'b cata_state"
    assume inv: "fold_inv g st"
    show "go_post g n st (go (Suc K) g alg st n)"
    proof (cases "memo st n")
      case (Some r)
      with go_memo_hit [OF inv Some] show ?thesis by simp
    next
      case None
      note miss = None
      show ?thesis
      proof (cases "getNode g n")
        case None
        with miss show ?thesis by (simp add: go_post_def)
      next
        case (Some node)
        have ap: "all_post g (chs g n) st (Effect_all (go K g alg) st (chs g n))"
          using step inv by (rule Effect_all_post)
        show ?thesis
        proof (cases "Effect_all (go K g alg) st (chs g n)")
          case None
          with ap show ?thesis by (simp add: all_post_def)
        next
          case (Some z)
          note z = Some
          show ?thesis
          proof (cases z)
            case (Inl e)
            with ap z obtain c m where "c \<in> set (chs g n)" "m \<in> desc g c"
              "getNode g m = None" "e = NodeNotFound m"
              by (auto simp: all_post_def)
            with desc_child [of c g n] have "\<exists>m \<in> desc g n. getNode g m = None \<and> e = NodeNotFound m"
              by blast
            with miss \<open>getNode g n = Some node\<close> z Inl show ?thesis
              by (simp add: go_post_def chs_def)
          next
            case (Inr q)
            obtain rs st1 where q: "q = (rs, st1)" by (cases q)
            from ap z Inr q have "all_post g (chs g n) st (Some (Inr (rs, st1)))" by simp
            from go_apply [OF wf inv miss \<open>getNode g n = Some node\<close> this, of "alg node rs"]
            show ?thesis
              using miss \<open>getNode g n = Some node\<close> z Inr q by (simp add: chs_def Let_def)
          qed
        qed
      qed
    qed
  qed
  then show ?case by blast
qed


text \<open>The whole fold.\<close>

definition cata_start :: "'b cata_state" where
  "cata_start = \<lparr>memo = Map.empty, calls = []\<rparr>"

definition rootIds :: "'a EffectGraph \<Rightarrow> NodeId list" where
  "rootIds g = map nodeId (getRoots g)"

lemma fold_inv_start [simp]: "fold_inv g cata_start"
  by (simp add: fold_inv_def cata_start_def bottom_up_def)

lemma cata_run_terminates:
  assumes wf: "wf (child_rel g)"
  shows "\<exists>k z. (\<forall>k' \<ge> k. cata_run k' g alg = Some z) \<and> all_post g (rootIds g) cata_start (Some z)"
proof -
  have "\<forall>r \<in> set (rootIds g). \<exists>k. \<forall>st. fold_inv g st \<longrightarrow> go_post g r st (go k g alg st r)"
    using go_terminates [OF wf] by blast
  then obtain kf where kf:
    "\<forall>r \<in> set (rootIds g). \<forall>st. fold_inv g st \<longrightarrow> go_post g r st (go (kf r) g alg st r)"
    by (auto dest: bchoice)
  define K where "K = Max (insert 0 (kf ` set (rootIds g)))"
  have le: "kf r \<le> K" if "r \<in> set (rootIds g)" for r
    unfolding K_def using that by (intro Max_ge) auto
  have step: "go_post g r st (go K g alg st r)"
    if r: "r \<in> set (rootIds g)" and inv: "fold_inv g st" for r and st :: "'b cata_state"
  proof -
    from kf r inv have gp: "go_post g r st (go (kf r) g alg st r)" by blast
    then obtain y where "go (kf r) g alg st r = Some y"
      by (cases "go (kf r) g alg st r") (auto simp: go_post_def)
    with go_mono [OF this le [OF r]] gp show ?thesis by simp
  qed
  have ap: "all_post g (rootIds g) cata_start (Effect_all (go K g alg) cata_start (rootIds g))"
    using step fold_inv_start by (rule Effect_all_post)
  then obtain z where z: "Effect_all (go K g alg) cata_start (rootIds g) = Some z"
    by (cases "Effect_all (go K g alg) cata_start (rootIds g)") (auto simp: all_post_def)
  have "cata_run k' g alg = Some z" if "K \<le> k'" for k'
    unfolding cata_run_def cata_start_def [symmetric] rootIds_def [symmetric]
    by (rule Effect_all_mono [OF _ z]) (rule go_mono [OF _ that])
  with ap z show ?thesis by auto
qed

text \<open>
  When does the recursion end? The id map is sound when the index it gives for the id of
  a node, if any, is the index of that node; it is complete when it gives one for every
  node. With a sound id map the children relation on ids follows the edges of the
  library graph, and an acyclic graph has no infinite path.
\<close>

definition idmap_sound :: "'a EffectGraph \<Rightarrow> bool" where
  "idmap_sound g \<longleftrightarrow>
     (\<forall>(k, m) \<in> set (nodes (graph g)).
        nodeIdToIndex g (nodeId m) = None \<or> nodeIdToIndex g (nodeId m) = Some k)"

definition idmap_complete :: "'a EffectGraph \<Rightarrow> bool" where
  "idmap_complete g \<longleftrightarrow>
     distinct (map fst (nodes (graph g)))
     \<and> (\<forall>(k, m) \<in> set (nodes (graph g)). nodeIdToIndex g (nodeId m) = Some k)"

lemma idmap_complete_sound: "idmap_complete g \<Longrightarrow> idmap_sound g"
  by (auto simp: idmap_complete_def idmap_sound_def)

lemma getChildren_edge:
  assumes "m \<in> set (getChildren g n)"
  shows "\<exists>k t. nodeIdToIndex g n = Some k \<and> (k, t) \<in> set (map snd (edges (graph g)))
              \<and> (t, m) \<in> set (nodes (graph g))"
proof -
  from assms obtain k where k: "nodeIdToIndex g n = Some k"
    by (cases "nodeIdToIndex g n") (simp_all add: getChildren_def)
  with assms have
    m: "m \<in> set (List.map_filter (Graph_getNode (graph g)) (Graph_neighbors (graph g) k))"
    by (simp add: getChildren_def)
  from m obtain t where t: "t \<in> set (Graph_neighbors (graph g) k)"
    and gm: "Graph_getNode (graph g) t = Some m"
    by (auto simp: set_map_filter)
  from t have "(k, t) \<in> set (map snd (edges (graph g)))"
    by (force simp: Graph_neighbors_def)
  with k Graph_getNode_in_nodes [OF gm] show ?thesis by blast
qed

definition below :: "(nat \<times> nat) set \<Rightarrow> (nat option \<times> nat option) set" where
  "below E = {(None, Some k) | k. True} \<union> map_prod Some Some ` (E\<inverse>)"

lemma wf_below:
  assumes "finite E" and "acyclic E"
  shows "wf (below E)"
  unfolding below_def
proof (rule wf_Un)
  have "{(None, Some k) | k. True} \<subseteq> measure (\<lambda>x :: nat option. if x = None then 0 else 1)"
    by auto
  then show "wf {(None :: nat option, Some k) | k :: nat. True}"
    by (rule wf_subset [OF wf_measure])
next
  have "wf (E\<inverse>)" using assms by (rule finite_acyclic_wf_converse)
  then show "wf (map_prod Some Some ` (E\<inverse>))"
    by (rule wf_map_prod_image) simp
next
  show "Domain {(None :: nat option, Some k) | k :: nat. True} \<inter> Range (map_prod Some Some ` (E\<inverse>)) = {}"
    by auto
qed

lemma wf_child_rel:
  assumes ac: "Graph_isAcyclic (graph g)" and snd: "idmap_sound g"
  shows "wf (child_rel g)"
proof -
  let ?E = "set (map snd (edges (graph g)))"
  have "child_rel g \<subseteq> inv_image (below ?E) (nodeIdToIndex g)"
  proof
    fix x assume "x \<in> child_rel g"
    then obtain c n where x: "x = (c, n)" and c: "c \<in> set (chs g n)"
      by (auto simp: child_rel_def)
    from c obtain m where m: "m \<in> set (getChildren g n)" and cm: "c = nodeId m"
      by (auto simp: chs_def)
    from getChildren_edge [OF m] obtain k t where k: "nodeIdToIndex g n = Some k"
      and e: "(k, t) \<in> ?E" and tm: "(t, m) \<in> set (nodes (graph g))" by blast
    from snd tm have "nodeIdToIndex g c = None \<or> nodeIdToIndex g c = Some t"
      unfolding idmap_sound_def cm by blast
    moreover from e have "(t, k) \<in> ?E\<inverse>" by simp
    then have "map_prod Some Some (t, k) \<in> map_prod Some Some ` (?E\<inverse>)" by (rule imageI)
    then have "(Some t, Some k) \<in> below ?E" by (simp add: below_def)
    moreover have "(None, Some k) \<in> below ?E" by (simp add: below_def)
    ultimately have "(nodeIdToIndex g c, nodeIdToIndex g n) \<in> below ?E"
      using k by auto
    then show "x \<in> inv_image (below ?E) (nodeIdToIndex g)" by (simp add: x)
  qed
  moreover have "wf (inv_image (below ?E) (nodeIdToIndex g))"
    using ac by (intro wf_inv_image wf_below) (simp_all add: Graph_isAcyclic_def)
  ultimately show ?thesis by (rule wf_subset [rotated])
qed

text \<open>With a complete id map every id the fold meets is found.\<close>

definition nodeIds :: "'a EffectGraph \<Rightarrow> NodeId set" where
  "nodeIds g = nodeId ` snd ` set (nodes (graph g))"

lemma getNode_complete:
  assumes "idmap_complete g" and "i \<in> nodeIds g"
  shows "getNode g i \<noteq> None"
proof -
  from assms(2) obtain k m where km: "(k, m) \<in> set (nodes (graph g))" and i: "i = nodeId m"
    by (auto simp: nodeIds_def)
  with assms(1) have "nodeIdToIndex g i = Some k" and "distinct (map fst (nodes (graph g)))"
    by (auto simp: idmap_complete_def)
  with km show ?thesis
    by (simp add: getNode_def Graph_getNode_def Map_get_def)
qed

lemma rootIds_nodeIds: "set (rootIds g) \<subseteq> nodeIds g"
proof
  fix i assume "i \<in> set (rootIds g)"
  then obtain m k where "Graph_getNode (graph g) k = Some m" and "i = nodeId m"
    by (auto simp: rootIds_def getRoots_def set_map_filter)
  with Graph_getNode_in_nodes [of "graph g" k m] show "i \<in> nodeIds g"
    by (force simp: nodeIds_def)
qed

lemma desc_nodeIds:
  assumes "n \<in> nodeIds g"
  shows "desc g n \<subseteq> nodeIds g"
proof
  fix m assume "m \<in> desc g n"
  then have "(m, n) \<in> (child_rel g)\<^sup>*" by (simp add: desc_def)
  then show "m \<in> nodeIds g"
  proof (induction rule: converse_rtrancl_induct)
    case base
    show ?case by (rule assms)
  next
    case (step y z)
    then obtain c where "c \<in> set (getChildren g z)" and "y = nodeId c"
      by (auto simp: child_rel_def chs_def)
    with getChildren_edge [of c g z] show ?case by (force simp: nodeIds_def)
  qed
qed


lemma cata_of_run:
  "cata_run k g alg = Some z \<Longrightarrow> cata k g alg = Some (map_sum (\<lambda>e. e) fst z)"
  by (simp add: cata_def)

lemma cata_run_complete:
  assumes ac: "isAcyclic (graph g)" and co: "idmap_complete g"
  shows "\<exists>k rs st. (\<forall>k' \<ge> k. cata_run k' g alg = Some (Inr (rs, st)) \<and> cata k' g alg = Some (Inr rs))
           \<and> length rs = length (getRoots g)
           \<and> distinct (calls st)
           \<and> set (calls st) = (\<Union>r \<in> set (rootIds g). desc g r)
           \<and> bottom_up g (calls st)"
proof -
  have wf: "wf (child_rel g)"
    using ac idmap_complete_sound [OF co] unfolding isAcyclic_def by (rule wf_child_rel)
  from cata_run_terminates [OF wf, of alg] obtain k z
    where run: "\<And>k'. k \<le> k' \<Longrightarrow> cata_run k' g alg = Some z"
      and ap: "all_post g (rootIds g) cata_start (Some z)" by blast
  have found: "getNode g m \<noteq> None" if "r \<in> set (rootIds g)" and "m \<in> desc g r" for r m
    using that rootIds_nodeIds [of g] desc_nodeIds [of r g] getNode_complete [OF co, of m] by blast
  show ?thesis
  proof (cases z)
    case (Inl e)
    with ap found show ?thesis by (auto simp: all_post_def)
  next
    case (Inr q)
    obtain rs st where q: "q = (rs, st)" by (cases q)
    from ap Inr q have len: "length rs = length (rootIds g)" and inv: "fold_inv g st"
      by (simp_all add: all_post_def)
    from ap Inr q have c: "set (calls st) = (\<Union>r \<in> set (rootIds g). desc g r)"
      by (auto simp: all_post_def cata_start_def)
    have "\<forall>k' \<ge> k. cata_run k' g alg = Some (Inr (rs, st)) \<and> cata k' g alg = Some (Inr rs)"
      using run cata_of_run [of _ g alg z] Inr q by simp
    moreover have "length rs = length (getRoots g)" using len by (simp add: rootIds_def)
    moreover have "distinct (calls st)" and "bottom_up g (calls st)"
      using inv by (simp_all add: fold_inv_def)
    ultimately show ?thesis using c by blast
  qed
qed

lemma cata_run_unresolved:
  assumes ac: "isAcyclic (graph g)" and so: "idmap_sound g"
    and r: "r \<in> set (rootIds g)" and p: "p \<in> desc g r"
    and c: "c \<in> set (getChildren g p)" and miss: "getNode g (nodeId c) = None"
  shows "\<exists>k m. getNode g m = None \<and> (\<forall>k' \<ge> k. cata k' g alg = Some (Inl (NodeNotFound m)))"
proof -
  have wf: "wf (child_rel g)"
    using ac so unfolding isAcyclic_def by (rule wf_child_rel)
  from cata_run_terminates [OF wf, of alg] obtain k z
    where run: "\<And>k'. k \<le> k' \<Longrightarrow> cata_run k' g alg = Some z"
      and ap: "all_post g (rootIds g) cata_start (Some z)" by blast
  have "(nodeId c, p) \<in> child_rel g" using c by (simp add: child_rel_def chs_def)
  moreover have "(p, r) \<in> (child_rel g)\<^sup>*" using p by (simp add: desc_def)
  ultimately have d: "nodeId c \<in> desc g r"
    unfolding desc_def by (simp add: converse_rtrancl_into_rtrancl)
  show ?thesis
  proof (cases z)
    case (Inl e)
    with ap obtain m where m: "getNode g m = None" "e = NodeNotFound m"
      by (auto simp: all_post_def)
    have "\<forall>k' \<ge> k. cata k' g alg = Some (Inl (NodeNotFound m))"
      using run cata_of_run [of _ g alg z] Inl m(2) by simp
    with m(1) show ?thesis by blast
  next
    case (Inr q)
    obtain rs st where q: "q = (rs, st)" by (cases q)
    from ap Inr q have "\<forall>n \<in> set (rootIds g). \<forall>m \<in> desc g n. getNode g m \<noteq> None"
      by (simp add: all_post_def)
    with r d have "getNode g (nodeId c) \<noteq> None" by blast
    with miss show ?thesis by simp
  qed
qed

text \<open>
  In a graph of the library that is acyclic every node can be reached from a root, so the
  algebra is applied as many times as the graph has nodes.
\<close>

lemma node_in_getChildren:
  assumes co: "idmap_complete g" and e: "(k, t) \<in> set (map snd (edges (graph g)))"
    and k: "(k, mk) \<in> set (nodes (graph g))" and t: "(t, m) \<in> set (nodes (graph g))"
  shows "nodeId m \<in> set (chs g (nodeId mk))"
proof -
  from co have d: "distinct (map fst (nodes (graph g)))" by (simp add: idmap_complete_def)
  from co k have ik: "nodeIdToIndex g (nodeId mk) = Some k" by (auto simp: idmap_complete_def)
  from e obtain x where "(x, k, t) \<in> set (edges (graph g))" by auto
  then have "(x, k, t) \<in> set (filter (\<lambda>(e, s, t). s = k) (edges (graph g)))" by simp
  then have "(\<lambda>(e, s, t). t) (x, k, t) \<in> (\<lambda>(e, s, t). t) ` set (filter (\<lambda>(e, s, t). s = k) (edges (graph g)))"
    by (rule imageI)
  then have n: "t \<in> set (Graph_neighbors (graph g) k)" by (simp add: Graph_neighbors_def)
  have gt: "Graph_getNode (graph g) t = Some m"
    using d t by (simp add: Graph_getNode_def Map_get_def)
  have "m \<in> set (List.map_filter (Graph_getNode (graph g)) (Graph_neighbors (graph g) k))"
    unfolding set_map_filter using n gt by blast
  then have "m \<in> set (getChildren g (nodeId mk))"
    using ik by (simp add: getChildren_def)
  then show ?thesis by (simp add: chs_def)
qed

lemma every_node_reached:
  assumes ok: "graph_ok (graph g)" and ac: "isAcyclic (graph g)" and co: "idmap_complete g"
    and tm: "(t, m) \<in> set (nodes (graph g))"
  shows "nodeId m \<in> (\<Union>r \<in> set (rootIds g). desc g r)"
proof -
  let ?E = "set (map snd (edges (graph g)))"
  have "wf ?E" using ac by (intro finite_acyclic_wf) (simp_all add: isAcyclic_def Graph_isAcyclic_def)
  then show ?thesis using tm
  proof (induction t arbitrary: m rule: wf_induct_rule)
    case (less t)
    from co have d: "distinct (map fst (nodes (graph g)))" by (simp add: idmap_complete_def)
    show ?case
    proof (cases "\<exists>k. (k, t) \<in> ?E")
      case True
      then obtain k where e: "(k, t) \<in> ?E" by blast
      then obtain x where "(x, k, t) \<in> set (edges (graph g))" by auto
      with ok have "Graph_hasNode (graph g) k" unfolding graph_ok_def by blast
      then obtain mk where k: "(k, mk) \<in> set (nodes (graph g))"
        by (auto simp: Graph_hasNode_def)
      from less.IH [OF e k] obtain r where r: "r \<in> set (rootIds g)" "nodeId mk \<in> desc g r"
        by blast
      from node_in_getChildren [OF co e k less.prems]
      have "(nodeId m, nodeId mk) \<in> child_rel g" by (simp add: child_rel_def)
      with r(2) have "nodeId m \<in> desc g r"
        unfolding desc_def by (simp add: converse_rtrancl_into_rtrancl)
      with r(1) show ?thesis by blast
    next
      case False
      have "t \<notin> set (map (\<lambda>(e, s, t). t) (edges (graph g)))"
      proof
        assume "t \<in> set (map (\<lambda>(e, s, t). t) (edges (graph g)))"
        then obtain x s where "(x, s, t) \<in> set (edges (graph g))" by auto
        then have "snd (x, s, t) \<in> snd ` set (edges (graph g))" by (rule imageI)
        then have "(s, t) \<in> ?E" by simp
        with False show False by blast
      qed
      with less.prems have "(t, m) \<in> set (Graph_externals_incoming (graph g))"
        by (simp add: Graph_externals_incoming_def)
      then have "fst (t, m) \<in> fst ` set (Graph_externals_incoming (graph g))" by (rule imageI)
      then have ext: "t \<in> set (map fst (Graph_externals_incoming (graph g)))" by simp
      have gt: "Graph_getNode (graph g) t = Some m"
        using d less.prems by (simp add: Graph_getNode_def Map_get_def)
      have "m \<in> set (getRoots g)"
        unfolding getRoots_def set_map_filter using ext gt by blast
      then have "nodeId m \<in> set (rootIds g)" by (simp add: rootIds_def)
      then show ?thesis using desc_refl [of "nodeId m" g] by blast
    qed
  qed
qed

lemma reached_eq_nodeIds:
  assumes "graph_ok (graph g)" and "isAcyclic (graph g)" and "idmap_complete g"
  shows "(\<Union>r \<in> set (rootIds g). desc g r) = nodeIds g"
proof
  show "(\<Union>r \<in> set (rootIds g). desc g r) \<subseteq> nodeIds g"
  proof
    fix i assume "i \<in> (\<Union>r \<in> set (rootIds g). desc g r)"
    then obtain r where r: "r \<in> set (rootIds g)" and i: "i \<in> desc g r" by blast
    from r rootIds_nodeIds [of g] have "r \<in> nodeIds g" by blast
    from desc_nodeIds [OF this] i show "i \<in> nodeIds g" by blast
  qed
next
  show "nodeIds g \<subseteq> (\<Union>r \<in> set (rootIds g). desc g r)"
  proof
    fix i assume "i \<in> nodeIds g"
    then obtain t m where tm: "(t, m) \<in> set (nodes (graph g))" and i: "i = nodeId m"
      by (auto simp: nodeIds_def)
    show "i \<in> (\<Union>r \<in> set (rootIds g). desc g r)"
      unfolding i by (rule every_node_reached [OF assms tm])
  qed
qed

lemma card_nodeIds:
  assumes co: "idmap_complete g"
  shows "card (nodeIds g) = size_graph g"
proof -
  from co have d: "distinct (map fst (nodes (graph g)))" by (simp add: idmap_complete_def)
  have inj: "inj_on (\<lambda>p. nodeId (snd p)) (set (nodes (graph g)))"
  proof (rule inj_onI)
    fix p q assume p: "p \<in> set (nodes (graph g))" and q: "q \<in> set (nodes (graph g))"
      and eq: "nodeId (snd p) = nodeId (snd q)"
    from co p have "nodeIdToIndex g (nodeId (snd p)) = Some (fst p)"
      by (auto simp: idmap_complete_def)
    moreover from co q have "nodeIdToIndex g (nodeId (snd q)) = Some (fst q)"
      by (auto simp: idmap_complete_def)
    ultimately have "fst p = fst q" using eq by simp
    moreover have "(fst p, snd p) \<in> set (nodes (graph g))" "(fst q, snd q) \<in> set (nodes (graph g))"
      using p q by simp_all
    ultimately have "snd p = snd q"
      using d eq_key_imp_eq_value [of "nodes (graph g)" "fst q" "snd p" "snd q"] by simp
    with \<open>fst p = fst q\<close> show "p = q" by (simp add: prod_eq_iff)
  qed
  have "distinct (nodes (graph g))" using d by (simp add: distinct_map)
  then have "card (set (nodes (graph g))) = length (nodes (graph g))"
    by (rule distinct_card)
  moreover have "nodeIds g = (\<lambda>p. nodeId (snd p)) ` set (nodes (graph g))"
    by (auto simp: nodeIds_def)
  ultimately show ?thesis
    using card_image [OF inj] by (simp add: size_graph_def Graph_nodeCount_def)
qed

lemma cata_call_count:
  assumes ok: "graph_ok (graph g)" and ac: "isAcyclic (graph g)" and co: "idmap_complete g"
  shows "\<exists>k rs st. (\<forall>k' \<ge> k. cata_run k' g alg = Some (Inr (rs, st)))
           \<and> set (calls st) = nodeIds g \<and> length (calls st) = size_graph g"
proof -
  from cata_run_complete [OF ac co, of alg] obtain k where
    "\<exists>rs st. (\<forall>k' \<ge> k. cata_run k' g alg = Some (Inr (rs, st)) \<and> cata k' g alg = Some (Inr rs))
           \<and> length rs = length (getRoots g)
           \<and> distinct (calls st)
           \<and> set (calls st) = (\<Union>r \<in> set (rootIds g). desc g r)
           \<and> bottom_up g (calls st)" ..
  then obtain rs where
    "\<exists>st. (\<forall>k' \<ge> k. cata_run k' g alg = Some (Inr (rs, st)) \<and> cata k' g alg = Some (Inr rs))
           \<and> length rs = length (getRoots g)
           \<and> distinct (calls st)
           \<and> set (calls st) = (\<Union>r \<in> set (rootIds g). desc g r)
           \<and> bottom_up g (calls st)" ..
  then obtain st where all:
    "(\<forall>k' \<ge> k. cata_run k' g alg = Some (Inr (rs, st)) \<and> cata k' g alg = Some (Inr rs))
           \<and> length rs = length (getRoots g)
           \<and> distinct (calls st)
           \<and> set (calls st) = (\<Union>r \<in> set (rootIds g). desc g r)
           \<and> bottom_up g (calls st)" ..
  from all have run: "\<forall>k' \<ge> k. cata_run k' g alg = Some (Inr (rs, st))" by simp
  from all have d: "distinct (calls st)" by simp
  from all have s: "set (calls st) = (\<Union>r \<in> set (rootIds g). desc g r)" by simp
  from s have s': "set (calls st) = nodeIds g" by (simp add: reached_eq_nodeIds [OF assms])
  from d have "length (calls st) = card (set (calls st))" by (simp add: distinct_card)
  with s' have "length (calls st) = size_graph g" by (simp add: card_nodeIds [OF co])
  with run s' show ?thesis by blast
qed

text \<open>Graphs built with ids that are new each time have a complete id map.\<close>

lemma built_fresh_complete: "built_fresh g \<Longrightarrow> idmap_complete g"
proof (induction rule: built_fresh.induct)
  case fresh_empty
  show ?case by (simp add: idmap_complete_def empty_def Graph_directed_def)
next
  case (fresh_singleton d newId now)
  show ?case
    by (simp add: idmap_complete_def singleton_def Let_def Graph_addNode_def Graph_directed_def
        Map_set_def makeNode_def)
next
  case (fresh_addNode g n g')
  from built_ok [OF built_fresh_built [OF fresh_addNode.hyps(1)]]
  have ok: "graph_ok (graph g)" and idm: "idmap_ok g" by simp_all
  have none: "Graph_findNodes (graph g) (\<lambda>m. nodeId m = nodeId n) = []"
  proof (rule ccontr)
    assume "Graph_findNodes (graph g) (\<lambda>m. nodeId m = nodeId n) \<noteq> []"
    then obtain k m where "(k, m) \<in> set (nodes (graph g))" and "nodeId m = nodeId n"
      by (auto simp: Graph_findNodes_def filter_empty_conv)
    with fresh_addNode.IH have "nodeIdToIndex g (nodeId n) = Some k"
      by (auto simp: idmap_complete_def)
    with fresh_addNode.hyps(2) show False by simp
  qed
  then have new: "newNodeIndex g n = nextNodeIndex (graph g)" by (simp add: newNodeIndex_def)
  have g': "g' = \<lparr>graph = addNode_graph g n,
                nodeIdToIndex = (nodeIdToIndex g)(nodeId n \<mapsto> nextNodeIndex (graph g)),
                indexToNodeId = (indexToNodeId g)(nextNodeIndex (graph g) \<mapsto> nodeId n)\<rparr>"
    using addNode_ok [OF ok idm, of n] fresh_addNode.hyps(3) new by simp
  have "graph_ok (graph g')"
    using built_ok [OF built_addNode [OF built_fresh_built [OF fresh_addNode.hyps(1)]
          fresh_addNode.hyps(3)]] by simp
  then have d: "distinct (map fst (nodes (graph g')))" by (simp add: graph_ok_def)
  have "nodeIdToIndex g' (nodeId m) = Some k" if km: "(k, m) \<in> set (nodes (graph g'))" for k m
  proof -
    from km consider "(k, m) \<in> set (nodes (graph g))"
      | "k = nextNodeIndex (graph g)" "m = updateDepth g n"
      by (auto simp: g' addNode_graph_def)
    then show ?thesis
    proof cases
      case 1
      with fresh_addNode.IH have "nodeIdToIndex g (nodeId m) = Some k"
        by (auto simp: idmap_complete_def)
      with fresh_addNode.hyps(2) show ?thesis by (auto simp: g')
    next
      case 2
      then show ?thesis by (simp add: g')
    qed
  qed
  with d show ?case by (auto simp: idmap_complete_def)
qed

definition count_chars :: "(string, nat) GraphAlgebra" where
  "count_chars node children = length (data node) + sum_list children"

definition graph_b_unmapped :: "string EffectGraph" where
  "graph_b_unmapped =
     \<lparr>graph = \<lparr>nodes = [(0, node_a), (1, node_b)], edges = [(0, 0, 1)],
               nextNodeIndex = 2, nextEdgeIndex = 1\<rparr>,
      nodeIdToIndex = [''a'' \<mapsto> 0],
      indexToNodeId = [0 \<mapsto> ''a'']\<rparr>"

lemma isAcyclic_graph_ab: "isAcyclic (graph graph_ab)"
proof -
  have "built (singleton ''doc'' ''a'' 0 :: string EffectGraph)" by (rule built_singleton)
  then have "built graph_ab" using addNode_singleton_node_b by (rule built_addNode)
  from built_ok [OF this] show ?thesis by (simp add: isAcyclic_def)
qed

text \<open>
  What the fold is to compute: the value of a node is the algebra applied to the node and
  to the values of its children, in the order in which \<^verbatim>\<open>getChildren\<close> lists them. The
  memo table is sound when the entry under the id of a node is the value of that node.
\<close>

inductive folds_to :: "'a EffectGraph \<Rightarrow> ('a, 'b) GraphAlgebra \<Rightarrow> 'a GraphNode \<Rightarrow> 'b \<Rightarrow> bool"
  for g :: "'a EffectGraph" and algebra :: "('a, 'b) GraphAlgebra" where
  folds_to_node:
    "list_all2 (folds_to g algebra) (getChildren g (nodeId node)) vs \<Longrightarrow>
     folds_to g algebra node (algebra node vs)"


lemma folds_to_unique:
  "folds_to g alg m v \<Longrightarrow> folds_to g alg m v' \<Longrightarrow> v = v'"
proof (induction arbitrary: v' rule: folds_to.induct)
  case (folds_to_node node vs)
  from folds_to_node.prems obtain vs' where v': "v' = alg node vs'"
    and all': "list_all2 (folds_to g alg) (getChildren g (nodeId node)) vs'"
    by (auto elim: folds_to.cases)
  have "vs = vs'"
  proof (rule nth_equalityI)
    show "length vs = length vs'"
      using folds_to_node.IH all' by (auto dest!: list_all2_lengthD)
  next
    fix i assume i: "i < length vs"
    then have i': "i < length (getChildren g (nodeId node))"
      using folds_to_node.IH by (auto dest!: list_all2_lengthD)
    from folds_to_node.IH i'
    have "\<forall>x. folds_to g alg (getChildren g (nodeId node) ! i) x \<longrightarrow> vs ! i = x"
      by (auto simp: list_all2_conv_all_nth)
    moreover from all' i' have "folds_to g alg (getChildren g (nodeId node) ! i) (vs' ! i)"
      by (auto simp: list_all2_conv_all_nth)
    ultimately show "vs ! i = vs' ! i" by blast
  qed
  with v' show ?case by simp
qed












text \<open>
  Claim C7 as stated fails. \<^verbatim>\<open>getChildren\<close> keeps of the indices that the adjacency of
  a node lists only those that have an entry in the node table
  (\<^verbatim>\<open>.filter(Option.isSome)\<close>). In the graph below the adjacency of the root lists index
  1, which has no entry: \<^verbatim>\<open>getChildren\<close> reports no child, and \<^verbatim>\<open>cata\<close> returns the
  result of the algebra on the root with no children, without an error.
\<close>

definition graph_dangling :: "string EffectGraph" where
  "graph_dangling =
     \<lparr>graph = \<lparr>nodes = [(0, node_a)], edges = [(0, 0, 1)],
               nextNodeIndex = 2, nextEdgeIndex = 1\<rparr>,
      nodeIdToIndex = [''a'' \<mapsto> 0],
      indexToNodeId = [0 \<mapsto> ''a'']\<rparr>"

theorem cata_skips_absent_child_counterexample:
  "Graph_neighbors (graph graph_dangling) 0 = [1]
   \<and> Graph_getNode (graph graph_dangling) 1 = None
   \<and> getChildren graph_dangling ''a'' = []
   \<and> cata (Suc 0) graph_dangling count_chars = Some (Inr [3])
   \<and> cata (Suc (Suc 0)) graph_dangling count_chars = Some (Inr [3])"
  by (simp add: graph_dangling_def Graph_neighbors_def Graph_getNode_def Map_get_def
      getChildren_def getNode_def getRoots_def Graph_externals_incoming_def
      cata_def cata_run_def count_chars_def node_a_def makeNode_def)

text \<open>
  Claim C7, as amended. When the fold reaches a node one of whose children, as
  \<^verbatim>\<open>getChildren\<close> reports them, has an id that \<^verbatim>\<open>getNode\<close> does not find, \<^verbatim>\<open>cata\<close> does
  not return a result: with enough fuel every run ends in the error
  \<^verbatim>\<open>Node not found\<close>, for an id that is indeed not found. (The graph is acyclic and the
  entries the id map has are right, so that the fold comes to an end.)
\<close>

theorem cata_missing_child_fails:
  assumes "isAcyclic (graph g)" and "idmap_sound g"
    and "r \<in> set (rootIds g)" and "p \<in> desc g r"
    and "c \<in> set (getChildren g p)" and "getNode g (nodeId c) = None"
  shows "\<exists>k m. getNode g m = None \<and> (\<forall>k' \<ge> k. cata k' g alg = Some (Inl (NodeNotFound m)))"
  using assms by (rule cata_run_unresolved)

theorem cata_missing_child_fails_witness:
  "isAcyclic (graph graph_b_unmapped) \<and> idmap_sound graph_b_unmapped
   \<and> ''a'' \<in> set (rootIds graph_b_unmapped) \<and> ''a'' \<in> desc graph_b_unmapped ''a''
   \<and> node_b \<in> set (getChildren graph_b_unmapped ''a'')
   \<and> getNode graph_b_unmapped (nodeId node_b) = None
   \<and> (\<exists>k m. getNode graph_b_unmapped m = None
         \<and> (\<forall>k' \<ge> k. cata k' graph_b_unmapped count_chars
                         = Some (Inl (NodeNotFound m))))"
proof -
  have 1: "isAcyclic (graph graph_b_unmapped)"
    using isAcyclic_graph_ab by (simp add: graph_b_unmapped_def graph_ab_def)
  have 2: "idmap_sound graph_b_unmapped"
    by (simp add: idmap_sound_def graph_b_unmapped_def node_a_def node_b_def makeNode_def)
  have 3: "''a'' \<in> set (rootIds graph_b_unmapped)"
    by (simp add: rootIds_def getRoots_def Graph_externals_incoming_def Graph_getNode_def
        Map_get_def graph_b_unmapped_def node_a_def node_b_def makeNode_def)
  have 4: "''a'' \<in> desc graph_b_unmapped ''a''" by simp
  have 5: "node_b \<in> set (getChildren graph_b_unmapped ''a'')"
    by (simp add: getChildren_def Graph_neighbors_def Graph_getNode_def Map_get_def
        graph_b_unmapped_def)
  have 6: "getNode graph_b_unmapped (nodeId node_b) = None"
    by (simp add: getNode_def graph_b_unmapped_def node_b_def makeNode_def)
  from cata_missing_child_fails [OF 1 2 3 4 5 6] 1 2 3 4 5 6 show ?thesis by blast
qed




section \<open>addNode on a heap: the graph handed in is not written to\<close>

text \<open>
  Whether \<^verbatim>\<open>addNode\<close> leaves its argument alone is a question about objects, so here the
  objects are spelled out. A graph of the library is an object that refers to its node
  table and its edge table (two \<^verbatim>\<open>Map\<close> objects) and carries the two counters; the store
  maps addresses to such objects. \<^verbatim>\<open>Graph.mutate(g, f)\<close> copies the tables of \<^verbatim>\<open>g\<close> into a
  new mutable graph (\<^verbatim>\<open>beginMutation\<close>), runs \<^verbatim>\<open>f\<close> on it, and returns a new immutable graph
  object over the mutated tables (\<^verbatim>\<open>endMutation\<close>); \<^verbatim>\<open>Graph.addNode\<close> and \<^verbatim>\<open>Graph.addEdge\<close>
  write into the tables of the mutable graph they are given. The two \<^verbatim>\<open>HashMap\<close>s of an
  EffectGraph are persistent values (\<^verbatim>\<open>HashMap.set\<close> returns a new map) and stay values.
\<close>

type_synonym addr = nat

datatype 'n cell =
    NodeTable "(NodeIndex, 'n) js_map"
  | EdgeTable "(EdgeIndex, Edge) js_map"
  | GraphObject addr addr NodeIndex EdgeIndex

record 'n store =
  cells :: "addr \<rightharpoonup> 'n cell"
  nextFree :: addr

record 'a EffectGraphRef =
  graphRef :: addr
  nodeIdToIndexRef :: "NodeId \<rightharpoonup> NodeIndex"
  indexToNodeIdRef :: "NodeIndex \<rightharpoonup> NodeId"

definition allocate :: "'n cell \<Rightarrow> 'n store \<Rightarrow> addr \<times> 'n store" where
  "allocate c h = (nextFree h, h\<lparr>cells := (cells h)(nextFree h \<mapsto> c), nextFree := nextFree h + 1\<rparr>)"

text \<open>The graph value that a graph object stands for.\<close>

definition read_graph :: "'n store \<Rightarrow> addr \<Rightarrow> 'n DirectedGraph option" where
  "read_graph h g =
     (case cells h g of
        Some (GraphObject nr er nn ne) \<Rightarrow>
          (case cells h nr of
             Some (NodeTable ns) \<Rightarrow>
               (case cells h er of
                  Some (EdgeTable es) \<Rightarrow>
                    Some \<lparr>nodes = ns, edges = es, nextNodeIndex = nn, nextEdgeIndex = ne\<rparr>
                | _ \<Rightarrow> None)
           | _ \<Rightarrow> None)
      | _ \<Rightarrow> None)"

definition graph_at :: "'a GraphNode store \<Rightarrow> 'a EffectGraphRef \<Rightarrow> 'a EffectGraph option" where
  "graph_at h r =
     map_option (\<lambda>G. \<lparr>graph = G, nodeIdToIndex = nodeIdToIndexRef r,
                        indexToNodeId = indexToNodeIdRef r\<rparr>)
       (read_graph h (graphRef r))"

text \<open>
  The operations of the library on the store. A reference that is not a graph object
  does not occur in a JavaScript heap; the operations return \<open>None\<close> for it.
\<close>

definition beginMutation :: "addr \<Rightarrow> 'n store \<Rightarrow> (addr \<times> 'n store) option" where
  "beginMutation g h =
     (case cells h g of
        Some (GraphObject nr er nn ne) \<Rightarrow>
          (case cells h nr of
             Some (NodeTable ns) \<Rightarrow>
               (case cells h er of
                  Some (EdgeTable es) \<Rightarrow>
                    (let (nr', h1) = allocate (NodeTable ns) h;
                         (er', h2) = allocate (EdgeTable es) h1
                     in Some (allocate (GraphObject nr' er' nn ne) h2))
                | _ \<Rightarrow> None)
           | _ \<Rightarrow> None)
      | _ \<Rightarrow> None)"

definition endMutation :: "addr \<Rightarrow> 'n store \<Rightarrow> (addr \<times> 'n store) option" where
  "endMutation m h =
     (case cells h m of
        Some (GraphObject nr er nn ne) \<Rightarrow> Some (allocate (GraphObject nr er nn ne) h)
      | _ \<Rightarrow> None)"

definition Graph_addNode_mut :: "addr \<Rightarrow> 'n \<Rightarrow> 'n store \<Rightarrow> (NodeIndex \<times> 'n store) option" where
  "Graph_addNode_mut m n h =
     (case cells h m of
        Some (GraphObject nr er nn ne) \<Rightarrow>
          (case cells h nr of
             Some (NodeTable ns) \<Rightarrow>
               Some (nn, h\<lparr>cells := (cells h)(nr \<mapsto> NodeTable (Map_set nn n ns),
                                                m \<mapsto> GraphObject nr er (nn + 1) ne)\<rparr>)
           | _ \<Rightarrow> None)
      | _ \<Rightarrow> None)"

definition Graph_addEdge_mut ::
  "addr \<Rightarrow> NodeIndex \<Rightarrow> NodeIndex \<Rightarrow> 'n store \<Rightarrow> ((error + EdgeIndex) \<times> 'n store) option" where
  "Graph_addEdge_mut m s t h =
     (case cells h m of
        Some (GraphObject nr er nn ne) \<Rightarrow>
          (case cells h nr of
             Some (NodeTable ns) \<Rightarrow>
               (case cells h er of
                  Some (EdgeTable es) \<Rightarrow>
                    (if s \<notin> set (map fst ns) then Some (Inl (MissingNode (Some s)), h)
                     else if t \<notin> set (map fst ns) then Some (Inl (MissingNode (Some t)), h)
                     else Some (Inr ne,
                            h\<lparr>cells := (cells h)(er \<mapsto> EdgeTable (Map_set ne (s, t) es),
                                                   m \<mapsto> GraphObject nr er nn (ne + 1))\<rparr>))
                | _ \<Rightarrow> None)
           | _ \<Rightarrow> None)
      | _ \<Rightarrow> None)"

text \<open>
  \<^verbatim>\<open>addNode\<close> again, statement by statement, on the store. What it reads of the graph
  handed in (the parent's depth) and of the new graph (the index of the node's id) it
  reads through the graph objects.
\<close>

definition addNode_store ::
  "'a EffectGraphRef \<Rightarrow> 'a GraphNode \<Rightarrow> 'a GraphNode store
     \<Rightarrow> ((error + 'a EffectGraphRef) \<times> 'a GraphNode store) option" where
  "addNode_store effectGraph node h =
     (case graph_at h effectGraph of
        None \<Rightarrow> None
      | Some old \<Rightarrow>
          (let updatedNode = updateDepth old node
           in case beginMutation (graphRef effectGraph) h of
                None \<Rightarrow> None
              | Some (mutable, h1) \<Rightarrow>
                  (case Graph_addNode_mut mutable updatedNode h1 of
                     None \<Rightarrow> None
                   | Some (nodeIndex, h2) \<Rightarrow>
                       (case (case parentId node of
                                None \<Rightarrow> Some (Inr 0, h2)
                              | Some p \<Rightarrow>
                                  (case nodeIdToIndexRef effectGraph p of
                                     None \<Rightarrow> Some (Inr 0, h2)
                                   | Some pIdx \<Rightarrow> Graph_addEdge_mut mutable pIdx nodeIndex h2)) of
                          None \<Rightarrow> None
                        | Some (Inl e, h3) \<Rightarrow> Some (Inl e, h3)
                        | Some (Inr _, h3) \<Rightarrow>
                            (case endMutation mutable h3 of
                               None \<Rightarrow> None
                             | Some (newGraph, h4) \<Rightarrow>
                                 (case read_graph h4 newGraph of
                                    None \<Rightarrow> None
                                  | Some G \<Rightarrow>
                                      (case Graph_findNodes G (\<lambda>n. nodeId n = nodeId updatedNode) of
                                         [] \<Rightarrow> Some (Inl (MissingNode None), h4)
                                       | foundIndex # _ \<Rightarrow>
                                           Some (Inr \<lparr>graphRef = newGraph,
                                                      nodeIdToIndexRef = (nodeIdToIndexRef effectGraph)
                                                        (nodeId updatedNode \<mapsto> foundIndex),
                                                      indexToNodeIdRef = (indexToNodeIdRef effectGraph)
                                                        (foundIndex \<mapsto> nodeId updatedNode)\<rparr>,
                                                 h4))))))))"

definition store_ok :: "'n store \<Rightarrow> bool" where
  "store_ok h \<longleftrightarrow> (\<forall>a. cells h a \<noteq> None \<longrightarrow> a < nextFree h)"

definition unchanged :: "'n store \<Rightarrow> 'n store \<Rightarrow> bool" where
  "unchanged h h' \<longleftrightarrow> (\<forall>a. cells h a \<noteq> None \<longrightarrow> cells h' a = cells h a)"


text \<open>
  \<open>owns h0 h m G\<close>: in the store \<open>h\<close>, which agrees with \<open>h0\<close> on everything \<open>h0\<close> holds,
  the object \<open>m\<close> and its two tables are cells that \<open>h0\<close> does not hold, and they stand
  for the graph \<open>G\<close>.
\<close>

definition owns :: "'n store \<Rightarrow> 'n store \<Rightarrow> addr \<Rightarrow> 'n DirectedGraph \<Rightarrow> bool" where
  "owns h0 h m G \<longleftrightarrow>
     (\<exists>nr er. cells h m = Some (GraphObject nr er (nextNodeIndex G) (nextEdgeIndex G))
        \<and> cells h nr = Some (NodeTable (nodes G)) \<and> cells h er = Some (EdgeTable (edges G))
        \<and> cells h0 m = None \<and> cells h0 nr = None \<and> cells h0 er = None
        \<and> m \<noteq> nr \<and> m \<noteq> er \<and> nr \<noteq> er)
     \<and> unchanged h0 h \<and> store_ok h"

definition getNode_store :: "'a GraphNode store \<Rightarrow> 'a EffectGraphRef \<Rightarrow> NodeId \<Rightarrow> 'a GraphNode option option" where
  "getNode_store h g nid = map_option (\<lambda>v. getNode v nid) (graph_at h g)"

definition getChildren_store :: "'a GraphNode store \<Rightarrow> 'a EffectGraphRef \<Rightarrow> NodeId \<Rightarrow> 'a GraphNode list option" where
  "getChildren_store h g nid = map_option (\<lambda>v. getChildren v nid) (graph_at h g)"

definition getRoots_store :: "'a GraphNode store \<Rightarrow> 'a EffectGraphRef \<Rightarrow> 'a GraphNode list option" where
  "getRoots_store h g = map_option getRoots (graph_at h g)"

definition size_store :: "'a GraphNode store \<Rightarrow> 'a EffectGraphRef \<Rightarrow> nat option" where
  "size_store h g = map_option size_graph (graph_at h g)"

lemma read_graph_SomeD:
  assumes "read_graph h g = Some G"
  shows "\<exists>nr er. cells h g = Some (GraphObject nr er (nextNodeIndex G) (nextEdgeIndex G))
           \<and> cells h nr = Some (NodeTable (nodes G)) \<and> cells h er = Some (EdgeTable (edges G))"
  using assms unfolding read_graph_def
  by (auto split: option.splits cell.splits)

lemma read_graph_SomeI:
  assumes "cells h g = Some (GraphObject nr er (nextNodeIndex G) (nextEdgeIndex G))"
    and "cells h nr = Some (NodeTable (nodes G))" and "cells h er = Some (EdgeTable (edges G))"
  shows "read_graph h g = Some G"
  using assms unfolding read_graph_def by simp

lemma unchanged_refl [simp]: "unchanged h h"
  by (simp add: unchanged_def)

lemma unchanged_trans: "unchanged h h1 \<Longrightarrow> unchanged h1 h2 \<Longrightarrow> unchanged h h2"
  unfolding unchanged_def by metis

lemma unchanged_read_graph:
  assumes "unchanged h h'" and "read_graph h g = Some G"
  shows "read_graph h' g = Some G"
proof -
  from read_graph_SomeD [OF assms(2)] obtain nr er
    where c: "cells h g = Some (GraphObject nr er (nextNodeIndex G) (nextEdgeIndex G))"
      "cells h nr = Some (NodeTable (nodes G))" "cells h er = Some (EdgeTable (edges G))"
    by blast
  with assms(1) have "cells h' g = cells h g" "cells h' nr = cells h nr" "cells h' er = cells h er"
    unfolding unchanged_def by simp_all
  with c show ?thesis by (intro read_graph_SomeI) simp_all
qed

lemma unchanged_view:
  "unchanged h h' \<Longrightarrow> graph_at h g = Some v \<Longrightarrow> graph_at h' g = Some v"
  unfolding graph_at_def by (auto dest: unchanged_read_graph)

lemma allocate_fresh:
  assumes "store_ok h" and "allocate c h = (a, h')"
  shows "cells h a = None" and "cells h' a = Some c" and "unchanged h h'" and "store_ok h'"
    and "\<And>b. b \<noteq> a \<Longrightarrow> cells h' b = cells h b"
proof -
  from assms(2) have a: "a = nextFree h"
    and h': "h' = h\<lparr>cells := (cells h)(nextFree h \<mapsto> c), nextFree := nextFree h + 1\<rparr>"
    by (auto simp: allocate_def)
  from assms(1) show n: "cells h a = None" unfolding store_ok_def a by fastforce
  show "cells h' a = Some c" by (simp add: h' a)
  show "unchanged h h'" using n unfolding unchanged_def h' a by auto
  show "store_ok h'" using assms(1) unfolding store_ok_def h' by (auto simp: less_Suc_eq)
  show "\<And>b. b \<noteq> a \<Longrightarrow> cells h' b = cells h b" by (simp add: h' a)
qed

lemma beginMutation_owns:
  assumes ok: "store_ok h" and rd: "read_graph h g = Some G"
  shows "\<exists>m h1. beginMutation g h = Some (m, h1) \<and> owns h h1 m G"
proof -
  from read_graph_SomeD [OF rd] obtain nr er
    where c: "cells h g = Some (GraphObject nr er (nextNodeIndex G) (nextEdgeIndex G))"
      "cells h nr = Some (NodeTable (nodes G))" "cells h er = Some (EdgeTable (edges G))"
    by blast
  obtain nr' h1 where a1: "allocate (NodeTable (nodes G)) h = (nr', h1)" by (cases "allocate (NodeTable (nodes G)) h")
  obtain er' h2 where a2: "allocate (EdgeTable (edges G)) h1 = (er', h2)" by (cases "allocate (EdgeTable (edges G)) h1")
  obtain m h3 where a3: "allocate (GraphObject nr' er' (nextNodeIndex G) (nextEdgeIndex G)) h2 = (m, h3)"
    by (cases "allocate (GraphObject nr' er' (nextNodeIndex G) (nextEdgeIndex G)) h2")
  note f1 = allocate_fresh [OF ok a1]
  note f2 = allocate_fresh [OF f1(4) a2]
  note f3 = allocate_fresh [OF f2(4) a3]
  have ne1: "nr' \<noteq> er'" using f1(2) f2(1) by auto
  have ne2: "er' \<noteq> m" using f2(2) f3(1) by auto
  have "cells h2 nr' = Some (NodeTable (nodes G))" using f1(2) f2(5) [OF ne1] by simp
  then have ne3: "nr' \<noteq> m" using f3(1) by auto
  note ne = ne1 ne2 ne3
  have u: "unchanged h h3" using f1(3) f2(3) f3(3) by (blast intro: unchanged_trans)
  have c3: "cells h3 m = Some (GraphObject nr' er' (nextNodeIndex G) (nextEdgeIndex G))"
    by (rule f3(2))
  have c2: "cells h3 er' = Some (EdgeTable (edges G))" using f2(2) f3(5) [of er'] ne by simp
  have c1: "cells h3 nr' = Some (NodeTable (nodes G))"
    using f1(2) f2(5) [of nr'] f3(5) [of nr'] ne by simp
  have n0: "cells h nr' = None" by (rule f1(1))
  have n1: "cells h er' = None"
    using f2(1) f1(3) unfolding unchanged_def by (metis option.distinct(1))
  have n2: "cells h m = None"
    using f3(1) f1(3) f2(3) unfolding unchanged_def by (metis option.distinct(1))
  have "owns h h3 m G"
    unfolding owns_def using c1 c2 c3 n0 n1 n2 ne u f3(4) by blast
  moreover have "beginMutation g h = Some (m, h3)"
    by (simp add: beginMutation_def c a1 a2 a3)
  ultimately show ?thesis by blast
qed

lemma owns_read_graph: "owns h0 h m G \<Longrightarrow> read_graph h m = Some G"
  unfolding owns_def by (auto intro: read_graph_SomeI)

lemma Graph_addNode_mut_owns:
  assumes "owns h0 h m G"
  shows "\<exists>h'. Graph_addNode_mut m n h = Some (fst (Graph_addNode G n), h')
            \<and> owns h0 h' m (snd (Graph_addNode G n))"
proof -
  from assms obtain nr er
    where c: "cells h m = Some (GraphObject nr er (nextNodeIndex G) (nextEdgeIndex G))"
      "cells h nr = Some (NodeTable (nodes G))" "cells h er = Some (EdgeTable (edges G))"
    and n: "cells h0 m = None" "cells h0 nr = None" "cells h0 er = None"
    and ne: "m \<noteq> nr" "m \<noteq> er" "nr \<noteq> er"
    and u: "unchanged h0 h" and ok: "store_ok h"
    unfolding owns_def by blast
  let ?h' = "h\<lparr>cells := (cells h)(nr \<mapsto> NodeTable (Map_set (nextNodeIndex G) n (nodes G)),
                                 m \<mapsto> GraphObject nr er (nextNodeIndex G + 1) (nextEdgeIndex G))\<rparr>"
  have r: "Graph_addNode_mut m n h = Some (fst (Graph_addNode G n), ?h')"
    by (simp add: Graph_addNode_mut_def c Graph_addNode_def)
  have "unchanged h0 ?h'"
    using u n unfolding unchanged_def by auto
  moreover have "store_ok ?h'"
    using ok c unfolding store_ok_def by auto
  ultimately have "owns h0 ?h' m (snd (Graph_addNode G n))"
    unfolding owns_def using c n ne by (auto simp: Graph_addNode_def)
  with r show ?thesis by blast
qed

lemma Graph_addEdge_mut_owns:
  assumes "owns h0 h m G"
  shows "case Graph_addEdge G s t of
           Inl e \<Rightarrow> Graph_addEdge_mut m s t h = Some (Inl e, h)
         | Inr (ei, G') \<Rightarrow> (\<exists>h'. Graph_addEdge_mut m s t h = Some (Inr ei, h') \<and> owns h0 h' m G')"
proof -
  from assms obtain nr er
    where c: "cells h m = Some (GraphObject nr er (nextNodeIndex G) (nextEdgeIndex G))"
      "cells h nr = Some (NodeTable (nodes G))" "cells h er = Some (EdgeTable (edges G))"
    and n: "cells h0 m = None" "cells h0 nr = None" "cells h0 er = None"
    and ne: "m \<noteq> nr" "m \<noteq> er" "nr \<noteq> er"
    and u: "unchanged h0 h" and ok: "store_ok h"
    unfolding owns_def by blast
  show ?thesis
  proof (cases "Graph_hasNode G s \<and> Graph_hasNode G t")
    case False
    then show ?thesis
      by (auto simp: Graph_addEdge_def Graph_addEdge_mut_def c Graph_hasNode_def)
  next
    case True
    let ?G' = "G\<lparr>edges := Map_set (nextEdgeIndex G) (s, t) (edges G),
                  nextEdgeIndex := nextEdgeIndex G + 1\<rparr>"
    let ?h' = "h\<lparr>cells := (cells h)(er \<mapsto> EdgeTable (Map_set (nextEdgeIndex G) (s, t) (edges G)),
                                   m \<mapsto> GraphObject nr er (nextNodeIndex G) (nextEdgeIndex G + 1))\<rparr>"
    have e: "Graph_addEdge G s t = Inr (nextEdgeIndex G, ?G')"
      using True by (simp add: Graph_addEdge_def)
    have r: "Graph_addEdge_mut m s t h = Some (Inr (nextEdgeIndex G), ?h')"
      using True by (simp add: Graph_addEdge_mut_def c Graph_hasNode_def)
    have "unchanged h0 ?h'"
      using u n unfolding unchanged_def by auto
    moreover have "store_ok ?h'"
      using ok c unfolding store_ok_def by auto
    ultimately have "owns h0 ?h' m ?G'"
      unfolding owns_def using c n ne by auto
    with e r show ?thesis by simp
  qed
qed

lemma endMutation_owns:
  assumes "owns h0 h m G"
  shows "\<exists>g' h'. endMutation m h = Some (g', h') \<and> read_graph h' g' = Some G
            \<and> unchanged h0 h' \<and> cells h0 g' = None"
proof -
  from assms obtain nr er
    where c: "cells h m = Some (GraphObject nr er (nextNodeIndex G) (nextEdgeIndex G))"
      "cells h nr = Some (NodeTable (nodes G))" "cells h er = Some (EdgeTable (edges G))"
    and u: "unchanged h0 h" and ok: "store_ok h"
    unfolding owns_def by blast
  obtain g' h' where a: "allocate (GraphObject nr er (nextNodeIndex G) (nextEdgeIndex G)) h = (g', h')"
    by (cases "allocate (GraphObject nr er (nextNodeIndex G) (nextEdgeIndex G)) h")
  note f = allocate_fresh [OF ok a]
  have "g' \<noteq> nr" "g' \<noteq> er" using f(1) c by auto
  then have "read_graph h' g' = Some G"
    using f(2) f(5) [of nr] f(5) [of er] c by (intro read_graph_SomeI) simp_all
  moreover have "unchanged h0 h'" using u f(3) by (rule unchanged_trans)
  moreover have "cells h0 g' = None"
    using f(1) u unfolding unchanged_def by (metis option.distinct(1))
  moreover have "endMutation m h = Some (g', h')" by (simp add: endMutation_def c a)
  ultimately show ?thesis by blast
qed


text \<open>The last statements of \<^verbatim>\<open>addNode\<close>: close the mutation, look the id up, bind it.\<close>

definition finish_store ::
  "'a EffectGraphRef \<Rightarrow> 'a GraphNode \<Rightarrow> addr \<Rightarrow> 'a GraphNode store
     \<Rightarrow> ((error + 'a EffectGraphRef) \<times> 'a GraphNode store) option" where
  "finish_store effectGraph updatedNode mutable h3 =
     (case endMutation mutable h3 of
        None \<Rightarrow> None
      | Some (newGraph, h4) \<Rightarrow>
          (case read_graph h4 newGraph of
             None \<Rightarrow> None
           | Some G \<Rightarrow>
               (case Graph_findNodes G (\<lambda>n. nodeId n = nodeId updatedNode) of
                  [] \<Rightarrow> Some (Inl (MissingNode None), h4)
                | foundIndex # _ \<Rightarrow>
                    Some (Inr \<lparr>graphRef = newGraph,
                               nodeIdToIndexRef = (nodeIdToIndexRef effectGraph)
                                 (nodeId updatedNode \<mapsto> foundIndex),
                               indexToNodeIdRef = (indexToNodeIdRef effectGraph)
                                 (foundIndex \<mapsto> nodeId updatedNode)\<rparr>,
                          h4))))"

definition finish_pure ::
  "'a EffectGraph \<Rightarrow> 'a GraphNode \<Rightarrow> 'a GraphNode DirectedGraph \<Rightarrow> error + 'a EffectGraph" where
  "finish_pure effectGraph updatedNode newGraph =
     (case Graph_findNodes newGraph (\<lambda>n. nodeId n = nodeId updatedNode) of
        [] \<Rightarrow> Inl (MissingNode None)
      | foundIndex # _ \<Rightarrow>
          Inr \<lparr>graph = newGraph,
               nodeIdToIndex = (nodeIdToIndex effectGraph)(nodeId updatedNode \<mapsto> foundIndex),
               indexToNodeId = (indexToNodeId effectGraph)(foundIndex \<mapsto> nodeId updatedNode)\<rparr>)"

definition refines ::
  "'a GraphNode store \<Rightarrow> 'a GraphNode store \<Rightarrow> error + 'a EffectGraphRef \<Rightarrow> error + 'a EffectGraph \<Rightarrow> bool" where
  "refines h h' res pure \<longleftrightarrow>
     (case res of
        Inl e \<Rightarrow> pure = Inl e
      | Inr r' \<Rightarrow> cells h (graphRef r') = None \<and> (\<exists>new. graph_at h' r' = Some new \<and> pure = Inr new))"

lemma finish_store_refines:
  assumes o: "owns h h3 m G2"
    and old: "nodeIdToIndex old = nodeIdToIndexRef r" "indexToNodeId old = indexToNodeIdRef r"
  shows "\<exists>res h4. finish_store r u m h3 = Some (res, h4) \<and> unchanged h h4
           \<and> refines h h4 res (finish_pure old u G2)"
proof -
  from endMutation_owns [OF o] obtain g' h4
    where e: "endMutation m h3 = Some (g', h4)" and rd: "read_graph h4 g' = Some G2"
      and u: "unchanged h h4" and fr: "cells h g' = None" by blast
  show ?thesis
  proof (cases "Graph_findNodes G2 (\<lambda>n. nodeId n = nodeId u)")
    case Nil
    then have "finish_store r u m h3 = Some (Inl (MissingNode None), h4)"
      by (simp add: finish_store_def e rd)
    moreover have "refines h h4 (Inl (MissingNode None)) (finish_pure old u G2)"
      using Nil by (simp add: refines_def finish_pure_def)
    ultimately show ?thesis using u by blast
  next
    case (Cons i rest)
    let ?r' = "\<lparr>graphRef = g',
                nodeIdToIndexRef = (nodeIdToIndexRef r)(nodeId u \<mapsto> i),
                indexToNodeIdRef = (indexToNodeIdRef r)(i \<mapsto> nodeId u)\<rparr>"
    have "finish_store r u m h3 = Some (Inr ?r', h4)"
      using Cons by (simp add: finish_store_def e rd)
    moreover have "refines h h4 (Inr ?r') (finish_pure old u G2)"
      using Cons fr rd old by (simp add: refines_def finish_pure_def graph_at_def)
    ultimately show ?thesis using u by blast
  qed
qed

lemma addNode_as_finish:
  "addNode old node =
     (let u = updateDepth old node; (idx, G1) = Graph_addNode (graph old) u
      in case parentIndex old node of
           None \<Rightarrow> finish_pure old u G1
         | Some pIdx \<Rightarrow>
             (case Graph_addEdge G1 pIdx idx of
                Inl e \<Rightarrow> Inl e
              | Inr (ei, G2) \<Rightarrow> finish_pure old u G2))"
  unfolding addNode_def finish_pure_def parentIndex_def Let_def
  by (auto split: prod.splits option.splits sum.splits list.splits)

lemma addNode_store_as_finish:
  "addNode_store r node h =
     (case graph_at h r of
        None \<Rightarrow> None
      | Some old \<Rightarrow>
          (let u = updateDepth old node
           in case beginMutation (graphRef r) h of
                None \<Rightarrow> None
              | Some (m, h1) \<Rightarrow>
                  (case Graph_addNode_mut m u h1 of
                     None \<Rightarrow> None
                   | Some (idx, h2) \<Rightarrow>
                       (case Option.bind (parentId node) (nodeIdToIndexRef r) of
                          None \<Rightarrow> finish_store r u m h2
                        | Some pIdx \<Rightarrow>
                            (case Graph_addEdge_mut m pIdx idx h2 of
                               None \<Rightarrow> None
                             | Some (Inl e, h3) \<Rightarrow> Some (Inl e, h3)
                             | Some (Inr ei, h3) \<Rightarrow> finish_store r u m h3)))))"
  unfolding addNode_store_def finish_store_def Let_def
  by (auto split: prod.splits option.splits sum.splits)

lemma addNode_store_refines:
  assumes ok: "store_ok h" and v: "graph_at h r = Some old"
  shows "\<exists>res h'. addNode_store r node h = Some (res, h') \<and> unchanged h h'
           \<and> refines h h' res (addNode old node)"
proof -
  from v obtain G where rd: "read_graph h (graphRef r) = Some G"
    and old: "old = \<lparr>graph = G, nodeIdToIndex = nodeIdToIndexRef r, indexToNodeId = indexToNodeIdRef r\<rparr>"
    by (auto simp: graph_at_def)
  have maps: "nodeIdToIndex old = nodeIdToIndexRef r" "indexToNodeId old = indexToNodeIdRef r"
    and gr: "graph old = G" by (simp_all add: old)
  let ?u = "updateDepth old node"
  obtain idx G1 where an: "Graph_addNode G ?u = (idx, G1)" by (cases "Graph_addNode G ?u")
  from beginMutation_owns [OF ok rd] obtain m h1
    where b: "beginMutation (graphRef r) h = Some (m, h1)" and o1: "owns h h1 m G" by blast
  from Graph_addNode_mut_owns [OF o1, of ?u] an obtain h2
    where a: "Graph_addNode_mut m ?u h1 = Some (idx, h2)" and o2: "owns h h2 m G1" by auto
  have pi: "Option.bind (parentId node) (nodeIdToIndexRef r) = parentIndex old node"
    by (simp add: parentIndex_def maps)
  show ?thesis
  proof (cases "parentIndex old node")
    case None
    from finish_store_refines [OF o2 maps, of ?u] obtain res h4
      where "finish_store r ?u m h2 = Some (res, h4)" "unchanged h h4"
        "refines h h4 res (finish_pure old ?u G1)" by blast
    moreover have "addNode_store r node h = finish_store r ?u m h2"
      by (simp add: addNode_store_as_finish v b a pi None)
    moreover have "addNode old node = finish_pure old ?u G1"
      by (simp add: addNode_as_finish gr an None)
    ultimately show ?thesis by auto
  next
    case (Some pIdx)
    show ?thesis
    proof (cases "Graph_addEdge G1 pIdx idx")
      case (Inl e)
      with Graph_addEdge_mut_owns [OF o2, of pIdx idx]
      have "Graph_addEdge_mut m pIdx idx h2 = Some (Inl e, h2)" by simp
      then have "addNode_store r node h = Some (Inl e, h2)"
        by (simp add: addNode_store_as_finish v b a pi Some)
      moreover have "addNode old node = Inl e"
        by (simp add: addNode_as_finish gr an Some Inl)
      moreover have "unchanged h h2" using o2 by (simp add: owns_def)
      ultimately show ?thesis by (simp add: refines_def)
    next
      case (Inr q)
      obtain ei G2 where q: "q = (ei, G2)" by (cases q)
      with Inr Graph_addEdge_mut_owns [OF o2, of pIdx idx] obtain h3
        where ae: "Graph_addEdge_mut m pIdx idx h2 = Some (Inr ei, h3)" and o3: "owns h h3 m G2"
        by auto
      from finish_store_refines [OF o3 maps, of ?u] obtain res h4
        where "finish_store r ?u m h3 = Some (res, h4)" "unchanged h h4"
          "refines h h4 res (finish_pure old ?u G2)" by blast
      moreover have "addNode_store r node h = finish_store r ?u m h3"
        by (simp add: addNode_store_as_finish v b a pi Some ae)
      moreover have "addNode old node = finish_pure old ?u G2"
        by (simp add: addNode_as_finish gr an Some Inr q)
      ultimately show ?thesis by auto
    qed
  qed
qed


definition store_ab :: "string GraphNode store" where
  "store_ab =
     \<lparr>cells = [0 \<mapsto> NodeTable [(0, node_a), (1, node_b)],
               1 \<mapsto> EdgeTable [(0, 0, 1)],
               2 \<mapsto> GraphObject 0 1 2 1],
      nextFree = 3\<rparr>"

definition ref_ab :: "string EffectGraphRef" where
  "ref_ab =
     \<lparr>graphRef = 2,
      nodeIdToIndexRef = [''a'' \<mapsto> 0, ''b'' \<mapsto> 1],
      indexToNodeIdRef = [0 \<mapsto> ''a'', 1 \<mapsto> ''b'']\<rparr>"

text \<open>
  Claim C9. \<^verbatim>\<open>addNode\<close> is persistent. Called on a graph \<open>g\<close> in any store it returns (with
  the result the value-level \<^verbatim>\<open>addNode\<close> computes, a returned graph being a new object),
  it changes no cell the store held before the call, and so \<open>g\<close> stands for the same
  graph afterwards: \<^verbatim>\<open>getNode\<close>, \<^verbatim>\<open>getChildren\<close>, \<^verbatim>\<open>getRoots\<close> and \<^verbatim>\<open>size\<close> on \<open>g\<close> return what
  they returned before.
\<close>

theorem addNode_persistent:
  assumes "store_ok h" and "graph_at h g = Some old"
  shows "\<exists>res h'. addNode_store g n h = Some (res, h')
           \<and> refines h h' res (addNode old n)
           \<and> unchanged h h'
           \<and> graph_at h' g = Some old
           \<and> getNode_store h' g nid = getNode_store h g nid
           \<and> getChildren_store h' g nid = getChildren_store h g nid
           \<and> getRoots_store h' g = getRoots_store h g
           \<and> size_store h' g = size_store h g"
proof -
  from addNode_store_refines [OF assms, of n] obtain res h'
    where r: "addNode_store g n h = Some (res, h')" and u: "unchanged h h'"
      and f: "refines h h' res (addNode old n)" by blast
  have v: "graph_at h' g = Some old" using u assms(2) by (rule unchanged_view)
  have "getNode_store h' g nid = getNode_store h g nid"
    and "getChildren_store h' g nid = getChildren_store h g nid"
    and "getRoots_store h' g = getRoots_store h g"
    and "size_store h' g = size_store h g"
    by (simp_all add: getNode_store_def getChildren_store_def getRoots_store_def size_store_def
        v assms(2))
  with r u f v show ?thesis by blast
qed

theorem addNode_persistent_witness:
  "store_ok store_ab \<and> graph_at store_ab ref_ab = Some graph_ab
   \<and> (\<exists>res h'. addNode_store ref_ab node_c store_ab = Some (res, h')
          \<and> refines store_ab h' res (addNode graph_ab node_c)
          \<and> unchanged store_ab h'
          \<and> graph_at h' ref_ab = Some graph_ab
          \<and> getNode_store h' ref_ab ''a'' = getNode_store store_ab ref_ab ''a''
          \<and> getChildren_store h' ref_ab ''a'' = getChildren_store store_ab ref_ab ''a''
          \<and> getRoots_store h' ref_ab = getRoots_store store_ab ref_ab
          \<and> size_store h' ref_ab = size_store store_ab ref_ab)"
proof -
  have ok: "store_ok store_ab"
    by (simp add: store_ok_def store_ab_def)
  have v: "graph_at store_ab ref_ab = Some graph_ab"
    by (simp add: graph_at_def read_graph_def store_ab_def ref_ab_def graph_ab_def)
  from addNode_persistent [OF ok v, of node_c "''a''"] ok v show ?thesis by blast
qed


end
